theory Spec2Isabelle
  imports Main "HOL-Library.Multiset" "HOL-Library.Extended_Nat" "HOL-Library.Sublist"
begin

section \<open>Instant-runoff tally: the data model\<close>

text \<open>
  The repository holds two versions of \<^verbatim>\<open>calculateIRV\<close>: the one in
  \<^verbatim>\<open>src/backend/utils/irv.js\<close> (the module the results endpoint and the test file
  load), embedded here as \<open>calculateIRV\<close>, and the one in \<^verbatim>\<open>src/unnamed/part_007\<close>,
  embedded as \<open>calculateIRV_p7\<close>. Lines 18 to 81 of the two files are the same, so the
  preprocessing and the per-round count are modelled once.

  Identifiers are the integer keys of the database, modelled as \<open>nat\<close>. An option is
  \<^verbatim>\<open>{ id, text }\<close>.
\<close>

record PollOption =
  opt_id :: nat
  opt_text :: string

text \<open>
  A ranking as it reaches the engine: \<^verbatim>\<open>pollOption\<close> (the nested option, when the row
  was loaded with its association), \<^verbatim>\<open>pollOptionId\<close> (the bare foreign key), and the
  rank. Either reference may be absent.
\<close>

record Ranking =
  pollOption :: "PollOption option"
  pollOptionId :: "nat option"
  rank :: int

record Ballot =
  ballot_id :: nat
  rankings :: "Ranking list"

text \<open>The normalised ballot built at lines 42 to 52.\<close>

record NRanking =
  n_pollOptionId :: "nat option"
  n_rank :: int

record NBallot =
  nb_id :: nat
  nb_rankings :: "NRanking list"

text \<open>
  A percentage is the IEEE double that \<^verbatim>\<open>(voteCounts[id] / totalVotes) * 100\<close> evaluates
  to, or the literal \<^verbatim>\<open>0\<close> of the other branch. Nothing is rounded here: \<open>Percent c t\<close>
  stands for the double computed from the integers \<open>c\<close> and \<open>t\<close>. That double is a function
  of \<open>c\<close> and \<open>t\<close>, so two equal terms are two equal doubles; two different terms are
  not said to be different doubles, and no property below reads a percentage.
\<close>

datatype js_double = Percent nat nat | Zero

text \<open>
  A round record. A key the source leaves out of an object literal, or sets to
  \<^verbatim>\<open>null\<close> or \<^verbatim>\<open>undefined\<close>, is \<open>None\<close> (\<open>False\<close> for the flag \<^verbatim>\<open>tie\<close>).
\<close>

record Round =
  round_no :: nat
  voteCounts :: "(nat \<times> nat) list"
  percentages :: "(nat \<times> js_double) list"
  eliminated :: "PollOption option"
  eliminatedMultiple :: "PollOption list option"
  remaining :: "nat list"
  majorityWinner :: "nat option"
  round_tie :: bool

record TallyResult =
  rounds :: "Round list"
  winner :: "PollOption option"
  tie :: bool
  tiedOptions :: "PollOption list option"
  totalVotes :: "nat option"
  majorityThreshold :: "nat option"
  error :: "string option"

datatype js_exn = TypeError

section \<open>Objects keyed by integers\<close>

text \<open>
  \<^verbatim>\<open>voteCounts\<close> and \<^verbatim>\<open>percentages\<close> are plain objects whose keys are option ids. An
  object lists its integer keys in ascending order, whatever the order of the writes, so
  it is an association list kept sorted by key: \<open>obj_set\<close> is \<^verbatim>\<open>o[k] = v\<close>, \<open>obj_get\<close>
  is \<^verbatim>\<open>o[k]\<close> (\<open>None\<close> for \<^verbatim>\<open>undefined\<close>) and \<open>obj_values\<close> is
  \<^verbatim>\<open>Object.values(o)\<close>.
\<close>

fun obj_set :: "nat \<Rightarrow> 'v \<Rightarrow> (nat \<times> 'v) list \<Rightarrow> (nat \<times> 'v) list" where
  "obj_set k v [] = [(k, v)]"
| "obj_set k v ((k', v') # kvs) =
     (if k = k' then (k, v) # kvs
      else if k < k' then (k, v) # (k', v') # kvs
      else (k', v') # obj_set k v kvs)"

definition obj_get :: "(nat \<times> 'v) list \<Rightarrow> nat \<Rightarrow> 'v option" where
  "obj_get kvs k = map_of kvs k"

definition obj_values :: "(nat \<times> 'v) list \<Rightarrow> 'v list" where
  "obj_values kvs = map snd kvs"

text \<open>\<^verbatim>\<open>xs[i]\<close>, which is \<^verbatim>\<open>undefined\<close> past the end.\<close>

definition js_index :: "'a list \<Rightarrow> nat \<Rightarrow> 'a option" where
  "js_index xs i = (if i < length xs then Some (xs ! i) else None)"

text \<open>\<^verbatim>\<open>Math.min(...vs)\<close>, which is \<^verbatim>\<open>Infinity\<close> for no argument.\<close>

definition Math_min :: "nat list \<Rightarrow> enat" where
  "Math_min vs = fold (\<lambda>v m. min (enat v) m) vs \<infinity>"

text \<open>
  \<^verbatim>\<open>voteCounts[id] === minVotes\<close> and \<^verbatim>\<open>voteCounts[id] >= majorityThreshold\<close>; both
  are false when the key is missing.
\<close>

definition count_is :: "(nat \<times> nat) list \<Rightarrow> nat \<Rightarrow> enat \<Rightarrow> bool" where
  "count_is vc k m = (case obj_get vc k of None \<Rightarrow> False | Some c \<Rightarrow> enat c = m)"

definition count_ge :: "(nat \<times> nat) list \<Rightarrow> nat \<Rightarrow> nat \<Rightarrow> bool" where
  "count_ge vc k t = (case obj_get vc k of None \<Rightarrow> False | Some c \<Rightarrow> t \<le> c)"

section \<open>Preprocessing (lines 36 to 55)\<close>

text \<open>
  \<^verbatim>\<open>r.pollOption?.id || r.pollOptionId\<close>: the nested id when it is truthy (not \<open>0\<close>),
  otherwise the bare key, whatever that is.
\<close>

definition resolveOptionId :: "Ranking \<Rightarrow> nat option" where
  "resolveOptionId r =
     (case pollOption r of
        None \<Rightarrow> pollOptionId r
      | Some p \<Rightarrow> if opt_id p \<noteq> 0 then Some (opt_id p) else pollOptionId r)"

text \<open>\<^verbatim>\<open>[...ballot.rankings].sort((a, b) => a.rank - b.rank)\<close> is a stable sort by rank.\<close>

definition normalizeBallot :: "Ballot \<Rightarrow> NBallot" where
  "normalizeBallot ballot =
     \<lparr>nb_id = ballot_id ballot,
      nb_rankings =
        map (\<lambda>r. \<lparr>n_pollOptionId = resolveOptionId r, n_rank = rank r\<rparr>)
          (sort_key rank (rankings ballot))\<rparr>"

section \<open>The count of one round (lines 60 to 81)\<close>

text \<open>
  The inner \<^verbatim>\<open>for\<close> loop with its \<^verbatim>\<open>break\<close>: the id of the first ranking whose option
  is still in the race.
\<close>

fun firstChoice :: "PollOption list \<Rightarrow> NRanking list \<Rightarrow> nat option" where
  "firstChoice remainingOptions [] = None"
| "firstChoice remainingOptions (r # rs) =
     (case n_pollOptionId r of
        None \<Rightarrow> firstChoice remainingOptions rs
      | Some k \<Rightarrow>
          if list_ex (\<lambda>opt. opt_id opt = k) remainingOptions then Some k
          else firstChoice remainingOptions rs)"

definition initCounts :: "PollOption list \<Rightarrow> (nat \<times> nat) list" where
  "initCounts remainingOptions = fold (\<lambda>opt vc. obj_set (opt_id opt) 0 vc) remainingOptions []"

text \<open>
  \<^verbatim>\<open>voteCounts[k]++\<close>. The key is always there (it was set to 0 for every remaining
  option); on a missing key the source would store \<^verbatim>\<open>NaN\<close>, which no run reaches.
\<close>

definition obj_incr :: "nat \<Rightarrow> (nat \<times> nat) list \<Rightarrow> (nat \<times> nat) list" where
  "obj_incr k vc = (case obj_get vc k of None \<Rightarrow> vc | Some c \<Rightarrow> obj_set k (c + 1) vc)"

text \<open>The callback of \<^verbatim>\<open>normalizedBallots.forEach\<close>: one ballot credits at most one vote.\<close>

definition castBallot :: "PollOption list \<Rightarrow> NBallot \<Rightarrow> (nat \<times> nat) list \<Rightarrow> (nat \<times> nat) list" where
  "castBallot remainingOptions ballot vc =
     (case firstChoice remainingOptions (nb_rankings ballot) of
        None \<Rightarrow> vc
      | Some k \<Rightarrow> obj_incr k vc)"

definition countVotes :: "PollOption list \<Rightarrow> NBallot list \<Rightarrow> (nat \<times> nat) list" where
  "countVotes remainingOptions normalizedBallots =
     fold (castBallot remainingOptions) normalizedBallots (initCounts remainingOptions)"

definition calcPercentages ::
  "nat \<Rightarrow> (nat \<times> nat) list \<Rightarrow> PollOption list \<Rightarrow> (nat \<times> js_double) list" where
  "calcPercentages totalV vc remainingOptions =
     fold (\<lambda>opt pc.
             case obj_get vc (opt_id opt) of
               None \<Rightarrow> pc
             | Some c \<Rightarrow>
                 obj_set (opt_id opt) (if totalV > 0 then Percent c totalV else Zero) pc)
       remainingOptions []"

section \<open>The round of \<^verbatim>\<open>src/backend/utils/irv.js\<close> (lines 83 to 168)\<close>

text \<open>
  One pass of the body of the \<^verbatim>\<open>while\<close> loop: \<open>Inl\<close> is a \<^verbatim>\<open>return\<close>, \<open>Inr\<close> the
  state (\<^verbatim>\<open>rounds\<close>, \<^verbatim>\<open>remainingOptions\<close>) the next pass starts from.
\<close>

definition round_irv ::
  "nat \<Rightarrow> nat \<Rightarrow> NBallot list \<Rightarrow> Round list \<Rightarrow> PollOption list
   \<Rightarrow> TallyResult + (Round list \<times> PollOption list)" where
  "round_irv totalV threshold normalizedBallots rnds remainingOptions =
     (let vc = countVotes remainingOptions normalizedBallots;
          pc = calcPercentages totalV vc remainingOptions
      in case find (\<lambda>opt. count_ge vc (opt_id opt) threshold) remainingOptions of
           Some mw \<Rightarrow>
             Inl \<lparr>rounds = rnds @
                    [\<lparr>round_no = length rnds + 1, voteCounts = vc, percentages = pc,
                      eliminated = None, eliminatedMultiple = None,
                      remaining = map opt_id remainingOptions,
                      majorityWinner = Some (opt_id mw), round_tie = False\<rparr>],
                  winner = Some mw, tie = False, tiedOptions = None,
                  totalVotes = Some totalV, majorityThreshold = Some threshold,
                  error = None\<rparr>
         | None \<Rightarrow>
             (let voteValues = obj_values vc;
                  minVotes = Math_min voteValues;
                  allSame = list_all (\<lambda>c. enat c = minVotes) voteValues
              in if allSame \<and> length remainingOptions > 1 then
                   Inl \<lparr>rounds = rnds @
                          [\<lparr>round_no = length rnds + 1, voteCounts = vc, percentages = pc,
                            eliminated = None, eliminatedMultiple = None,
                            remaining = map opt_id remainingOptions,
                            majorityWinner = None, round_tie = True\<rparr>],
                        winner = None, tie = True, tiedOptions = Some remainingOptions,
                        totalVotes = Some totalV, majorityThreshold = Some threshold,
                        error = None\<rparr>
                 else
                   (let minVoteOptions =
                          filter (\<lambda>opt. count_is vc (opt_id opt) minVotes) remainingOptions;
                        eliminatedOptions = minVoteOptions;
                        rnds' = rnds @
                          [\<lparr>round_no = length rnds + 1, voteCounts = vc, percentages = pc,
                            eliminated =
                              (if length eliminatedOptions = 1 then js_index eliminatedOptions 0
                               else None),
                            eliminatedMultiple =
                              (if length eliminatedOptions > 1 then Some eliminatedOptions
                               else None),
                            remaining = map opt_id remainingOptions,
                            majorityWinner = None, round_tie = False\<rparr>];
                        eliminatedIds = map opt_id eliminatedOptions;
                        remainingOptions' =
                          filter (\<lambda>opt. opt_id opt \<notin> set eliminatedIds) remainingOptions
                    in if length remainingOptions' = 0 then
                         Inl \<lparr>rounds = rnds', winner = None, tie = False, tiedOptions = None,
                              totalVotes = Some totalV, majorityThreshold = Some threshold,
                              error = Some ''All options eliminated - no winner''\<rparr>
                       else Inr (rnds', remainingOptions'))))"

section \<open>The round of \<^verbatim>\<open>src/unnamed/part_007\<close> (lines 83 to 241)\<close>

text \<open>
  This version can, as written, dereference \<^verbatim>\<open>undefined\<close> (\<^verbatim>\<open>eliminatedOption.id\<close>
  at line 148, \<^verbatim>\<open>reduce\<close> of an empty array at line 172, \<^verbatim>\<open>opt.id\<close> at line 227):
  those are the \<open>Throw\<close> branches. \<open>Return\<close> is a \<^verbatim>\<open>return\<close>; \<open>Continue\<close> carries
  the state of the next pass.
\<close>

datatype pass = Return TallyResult | Continue "Round list" "PollOption list" | Throw js_exn

definition round_p7 ::
  "nat \<Rightarrow> nat \<Rightarrow> NBallot list \<Rightarrow> Round list \<Rightarrow> PollOption list \<Rightarrow> pass" where
  "round_p7 totalV threshold normalizedBallots rnds remainingOptions =
     (let vc = countVotes remainingOptions normalizedBallots;
          pc = calcPercentages totalV vc remainingOptions;
          mwo = (if length remainingOptions > 2
                 then find (\<lambda>opt. count_ge vc (opt_id opt) threshold) remainingOptions
                 else None)
      in case mwo of
           Some mw \<Rightarrow>
             Return \<lparr>rounds = rnds @
                    [\<lparr>round_no = length rnds + 1, voteCounts = vc, percentages = pc,
                      eliminated = None, eliminatedMultiple = None,
                      remaining = map opt_id remainingOptions,
                      majorityWinner = Some (opt_id mw), round_tie = False\<rparr>],
                  winner = Some mw, tie = False, tiedOptions = None,
                  totalVotes = Some totalV, majorityThreshold = Some threshold,
                  error = None\<rparr>
         | None \<Rightarrow>
             if length remainingOptions = 2 then
               (let voteValues = obj_values vc;
                    minVotes = Math_min voteValues
                in if js_index voteValues 0 = js_index voteValues 1 then
                     Return \<lparr>rounds = rnds @
                            [\<lparr>round_no = length rnds + 1, voteCounts = vc, percentages = pc,
                              eliminated = None, eliminatedMultiple = None,
                              remaining = map opt_id remainingOptions,
                              majorityWinner = None, round_tie = True\<rparr>],
                          winner = None, tie = True, tiedOptions = Some remainingOptions,
                          totalVotes = Some totalV, majorityThreshold = Some threshold,
                          error = None\<rparr>
                   else
                     (case find (\<lambda>opt. count_is vc (opt_id opt) minVotes) remainingOptions of
                        None \<Rightarrow> Throw TypeError
                      | Some eliminatedOption \<Rightarrow>
                          Return \<lparr>rounds = rnds @
                                 [\<lparr>round_no = length rnds + 1, voteCounts = vc,
                                   percentages = pc,
                                   eliminated = Some eliminatedOption,
                                   eliminatedMultiple = None,
                                   remaining = map opt_id remainingOptions,
                                   majorityWinner = None, round_tie = False\<rparr>],
                               winner =
                                 find (\<lambda>opt. opt_id opt \<noteq> opt_id eliminatedOption)
                                   remainingOptions,
                               tie = False, tiedOptions = None,
                               totalVotes = Some totalV, majorityThreshold = Some threshold,
                               error = None\<rparr>))
             else
               (let voteValues = obj_values vc;
                    minVotes = Math_min voteValues;
                    minVoteOptions =
                      filter (\<lambda>opt. count_is vc (opt_id opt) minVotes) remainingOptions;
                    allSame = list_all (\<lambda>c. enat c = minVotes) voteValues
                in if allSame \<and> length remainingOptions > 2 then
                     (case minVoteOptions of
                        [] \<Rightarrow> Throw TypeError
                      | m # ms \<Rightarrow>
                          (let optionToEliminate =
                                 fold (\<lambda>current lowest.
                                         if opt_id current < opt_id lowest then current
                                         else lowest) ms m
                           in Continue
                                (rnds @
                                  [\<lparr>round_no = length rnds + 1, voteCounts = vc,
                                    percentages = pc,
                                    eliminated = Some optionToEliminate,
                                    eliminatedMultiple = None,
                                    remaining = map opt_id remainingOptions,
                                    majorityWinner = None, round_tie = False\<rparr>])
                                (filter (\<lambda>opt. opt_id opt \<noteq> opt_id optionToEliminate)
                                   remainingOptions)))
                   else if length remainingOptions = 2 \<and> allSame then
                     Return \<lparr>rounds = rnds @
                            [\<lparr>round_no = length rnds + 1, voteCounts = vc, percentages = pc,
                              eliminated = None, eliminatedMultiple = None,
                              remaining = map opt_id remainingOptions,
                              majorityWinner = None, round_tie = True\<rparr>],
                          winner = None, tie = True, tiedOptions = Some remainingOptions,
                          totalVotes = Some totalV, majorityThreshold = Some threshold,
                          error = None\<rparr>
                   else
                     (case minVoteOptions of
                        [] \<Rightarrow> Throw TypeError
                      | m # ms \<Rightarrow>
                          (let eliminatedOptions =
                                 (if length minVoteOptions > 1 then minVoteOptions else [m]);
                               rnds' = rnds @
                                 [\<lparr>round_no = length rnds + 1, voteCounts = vc,
                                   percentages = pc,
                                   eliminated =
                                     (if length eliminatedOptions = 1
                                      then js_index eliminatedOptions 0 else None),
                                   eliminatedMultiple =
                                     (if length eliminatedOptions > 1
                                      then Some eliminatedOptions else None),
                                   remaining = map opt_id remainingOptions,
                                   majorityWinner = None, round_tie = False\<rparr>];
                               eliminatedIds = map opt_id eliminatedOptions;
                               remainingOptions' =
                                 filter (\<lambda>opt. opt_id opt \<notin> set eliminatedIds)
                                   remainingOptions
                           in if length remainingOptions' = 0 then
                                Return \<lparr>rounds = rnds', winner = None, tie = False,
                                     tiedOptions = None, totalVotes = Some totalV,
                                     majorityThreshold = Some threshold,
                                     error = Some ''All options eliminated - no winner''\<rparr>
                              else Continue rnds' remainingOptions'))))"

section \<open>The loop and the entry point, in both versions\<close>

text \<open>
  The \<^verbatim>\<open>while (remainingOptions.length > 1)\<close> loop, one recursive call per pass, and the
  code after it: \<^verbatim>\<open>remainingOptions[0]\<close> is the winner (\<^verbatim>\<open>undefined\<close> if no option is
  left). The totals are parameters: the source computes them once, before the loop. That
  the recursion ends is proved further down, once it is known that a pass that continues
  removes an option.
\<close>

function calculateIRV_loop ::
  "nat \<Rightarrow> nat \<Rightarrow> NBallot list \<Rightarrow> Round list \<Rightarrow> PollOption list \<Rightarrow> TallyResult" where
  "calculateIRV_loop totalV threshold normalizedBallots rnds remainingOptions =
     (if length remainingOptions > 1 then
        (case round_irv totalV threshold normalizedBallots rnds remainingOptions of
           Inl res \<Rightarrow> res
         | Inr (rnds', remainingOptions') \<Rightarrow>
             calculateIRV_loop totalV threshold normalizedBallots rnds' remainingOptions')
      else
        \<lparr>rounds = rnds, winner = js_index remainingOptions 0, tie = False,
         tiedOptions = None, totalVotes = Some totalV, majorityThreshold = Some threshold,
         error = None\<rparr>)"
  by pat_completeness auto

function calculateIRV_p7_loop ::
  "nat \<Rightarrow> nat \<Rightarrow> NBallot list \<Rightarrow> Round list \<Rightarrow> PollOption list \<Rightarrow> js_exn + TallyResult" where
  "calculateIRV_p7_loop totalV threshold normalizedBallots rnds remainingOptions =
     (if length remainingOptions > 1 then
        (case round_p7 totalV threshold normalizedBallots rnds remainingOptions of
           Return res \<Rightarrow> Inr res
         | Throw e \<Rightarrow> Inl e
         | Continue rnds' remainingOptions' \<Rightarrow>
             calculateIRV_p7_loop totalV threshold normalizedBallots rnds' remainingOptions')
      else
        Inr \<lparr>rounds = rnds, winner = js_index remainingOptions 0, tie = False,
         tiedOptions = None, totalVotes = Some totalV, majorityThreshold = Some threshold,
         error = None\<rparr>)"
  by pat_completeness auto

definition calculateIRV :: "PollOption list \<Rightarrow> Ballot list \<Rightarrow> TallyResult" where
  "calculateIRV options ballots =
     (if options = [] then
        \<lparr>rounds = [], winner = None, tie = False, tiedOptions = None, totalVotes = None,
         majorityThreshold = None, error = Some ''No options available''\<rparr>
      else if ballots = [] then
        \<lparr>rounds = [], winner = None, tie = False, tiedOptions = None, totalVotes = None,
         majorityThreshold = None, error = Some ''No ballots available''\<rparr>
      else
        (let remainingOptions = map (\<lambda>opt. \<lparr>opt_id = opt_id opt, opt_text = opt_text opt\<rparr>) options;
             normalizedBallots = map normalizeBallot ballots;
             totalV = length normalizedBallots;
             threshold = totalV div 2 + 1
         in calculateIRV_loop totalV threshold normalizedBallots [] remainingOptions))"

definition calculateIRV_p7 :: "PollOption list \<Rightarrow> Ballot list \<Rightarrow> js_exn + TallyResult" where
  "calculateIRV_p7 options ballots =
     (if options = [] then
        Inr \<lparr>rounds = [], winner = None, tie = False, tiedOptions = None, totalVotes = None,
         majorityThreshold = None, error = Some ''No options available''\<rparr>
      else if ballots = [] then
        Inr \<lparr>rounds = [], winner = None, tie = False, tiedOptions = None, totalVotes = None,
         majorityThreshold = None, error = Some ''No ballots available''\<rparr>
      else
        (let remainingOptions = map (\<lambda>opt. \<lparr>opt_id = opt_id opt, opt_text = opt_text opt\<rparr>) options;
             normalizedBallots = map normalizeBallot ballots;
             totalV = length normalizedBallots;
             threshold = totalV div 2 + 1
         in calculateIRV_p7_loop totalV threshold normalizedBallots [] remainingOptions))"

section \<open>The inputs of the test file\<close>

text \<open>
  The options and ballots of \<^verbatim>\<open>src/backend/utils/__tests__/irv.test.js\<close>. \<open>ranked i ks\<close>
  is the ballot \<open>i\<close> that ranks the options \<open>ks\<close> in that order, from rank 1, by their bare
  ids.
\<close>

definition O1 :: PollOption where "O1 = \<lparr>opt_id = 1, opt_text = ''Option A''\<rparr>"

definition O2 :: PollOption where "O2 = \<lparr>opt_id = 2, opt_text = ''Option B''\<rparr>"

definition O3 :: PollOption where "O3 = \<lparr>opt_id = 3, opt_text = ''Option C''\<rparr>"

definition O4 :: PollOption where "O4 = \<lparr>opt_id = 4, opt_text = ''Option D''\<rparr>"

definition ranked :: "nat \<Rightarrow> nat list \<Rightarrow> Ballot" where
  "ranked i ks =
     \<lparr>ballot_id = i,
      rankings = map (\<lambda>(k, n). \<lparr>pollOption = None, pollOptionId = Some k, rank = int n + 1\<rparr>)
                   (zip ks [0 ..< length ks])\<rparr>"

text \<open>``two options with clear winner'' (lines 39 to 55).\<close>

definition ballots_clear_winner :: "Ballot list" where
  "ballots_clear_winner = [ranked 1 [1, 2], ranked 2 [1, 2], ranked 3 [2, 1]]"

text \<open>``candidate wins with majority in first round'' (lines 59 to 79).\<close>

definition ballots_majority :: "Ballot list" where
  "ballots_majority =
     [ranked 1 [1, 2, 3], ranked 2 [1, 2, 3], ranked 3 [1, 2, 3], ranked 4 [2, 1, 3],
      ranked 5 [3, 1, 2]]"

text \<open>``handles three-round elimination'' (lines 123 to 143).\<close>

definition ballots_four_way :: "Ballot list" where
  "ballots_four_way =
     [ranked 1 [1, 2, 3, 4], ranked 2 [2, 1, 3, 4], ranked 3 [3, 1, 2, 4], ranked 4 [4, 1, 2, 3]]"


text \<open>``handles multiple candidates tied for last place'' (lines 164 to 182).\<close>

definition ballots_last_place :: "Ballot list" where
  "ballots_last_place =
     [ranked 1 [1, 2, 3], ranked 2 [1, 2, 3], ranked 3 [2, 1, 3], ranked 4 [3, 1, 2]]"

text \<open>
  The ballot of the test ``handles ballots with pollOption object structure'' (lines 232 to
  246), and two ballots that rank an option with id 0 first, by its bare id and by the
  nested reference.
\<close>

definition ballot_nested :: Ballot where
  "ballot_nested =
     \<lparr>ballot_id = 1,
      rankings = [\<lparr>pollOption = Some O1, pollOptionId = None, rank = 1\<rparr>,
                  \<lparr>pollOption = Some O2, pollOptionId = None, rank = 2\<rparr>]\<rparr>"

definition O0 :: PollOption where "O0 = \<lparr>opt_id = 0, opt_text = ''Option Z''\<rparr>"

definition ballot_zero_direct :: Ballot where
  "ballot_zero_direct =
     \<lparr>ballot_id = 1,
      rankings = [\<lparr>pollOption = None, pollOptionId = Some 0, rank = 1\<rparr>,
                  \<lparr>pollOption = None, pollOptionId = Some 1, rank = 2\<rparr>]\<rparr>"

definition ballot_zero_nested :: Ballot where
  "ballot_zero_nested =
     \<lparr>ballot_id = 1,
      rankings = [\<lparr>pollOption = Some O0, pollOptionId = None, rank = 1\<rparr>,
                  \<lparr>pollOption = None, pollOptionId = Some 1, rank = 2\<rparr>]\<rparr>"

text \<open>A ballot whose only ranking names the option with id 0, by the nested reference.\<close>

definition ballot_zero_only :: Ballot where
  "ballot_zero_only =
     \<lparr>ballot_id = 1, rankings = [\<lparr>pollOption = Some O0, pollOptionId = None, rank = 1\<rparr>]\<rparr>"

section \<open>Notions the properties are stated with\<close>

text \<open>
  The count of option \<open>k\<close> in a round is the number of ballots whose first ranking still in
  the race is \<open>k\<close>; \<open>votesFor\<close> names that number, and the lemmas below read every
  test the round makes on \<^verbatim>\<open>voteCounts\<close> in terms of it.
\<close>

definition votesFor :: "PollOption list \<Rightarrow> NBallot list \<Rightarrow> nat \<Rightarrow> nat" where
  "votesFor rem nbs k = length (filter (\<lambda>b. firstChoice rem (nb_rankings b) = Some k) nbs)"

text \<open>\<open>minVote\<close> is \<^verbatim>\<open>minVotes\<close> as a number: the least count of a remaining option.\<close>

definition minVote :: "PollOption list \<Rightarrow> NBallot list \<Rightarrow> nat" where
  "minVote rem nbs = Min ((\<lambda>opt. votesFor rem nbs (opt_id opt)) ` set rem)"

text \<open>
  \<open>played_on threshold nbs rem r\<close>: the record \<open>r\<close> is that of a pass played on the options
  \<open>rem\<close>. Every record either loop pushes is one.
\<close>

definition played_on :: "nat \<Rightarrow> NBallot list \<Rightarrow> PollOption list \<Rightarrow> Round \<Rightarrow> bool" where
  "played_on threshold nbs rem r \<longleftrightarrow>
     1 < length rem \<and> voteCounts r = countVotes rem nbs \<and> remaining r = map opt_id rem \<and>
     (case majorityWinner r of None \<Rightarrow> True
      | Some k \<Rightarrow> k \<in> opt_id ` set rem \<and> count_ge (countVotes rem nbs) k threshold)"


text \<open>
  \<open>nested_form_of r r'\<close>: \<open>r\<close> refers to its option by the bare \<^verbatim>\<open>pollOptionId\<close>, and \<open>r'\<close>
  is the same ranking with the nested \<^verbatim>\<open>pollOption\<close> of that id in its place.
  \<open>same_ballot\<close> relates two ballots that differ only in the form of some rankings.
\<close>

definition nested_form_of :: "Ranking \<Rightarrow> Ranking \<Rightarrow> bool" where
  "nested_form_of r r' \<longleftrightarrow>
     rank r' = rank r \<and> pollOption r = None \<and> pollOptionId r' = None \<and>
     (case pollOptionId r of
        None \<Rightarrow> False
      | Some k \<Rightarrow> (case pollOption r' of None \<Rightarrow> False | Some p \<Rightarrow> opt_id p = k))"

definition same_ranking :: "Ranking \<Rightarrow> Ranking \<Rightarrow> bool" where
  "same_ranking r r' \<longleftrightarrow> r = r' \<or> nested_form_of r r' \<or> nested_form_of r' r"

definition same_ballot :: "Ballot \<Rightarrow> Ballot \<Rightarrow> bool" where
  "same_ballot b b' \<longleftrightarrow>
     ballot_id b = ballot_id b' \<and> list_all2 same_ranking (rankings b) (rankings b')"

text \<open>No ranking refers to an option by the id 0, in either form.\<close>

definition ids_truthy :: "Ballot list \<Rightarrow> bool" where
  "ids_truthy ballots \<longleftrightarrow>
     list_all (\<lambda>b. list_all (\<lambda>r. pollOptionId r \<noteq> Some 0 \<and>
                                   (case pollOption r of None \<Rightarrow> True | Some p \<Rightarrow> opt_id p \<noteq> 0))
                      (rankings b)) ballots"

text \<open>
  Two round records, and two results, that differ at most in the order in which lists of
  options are written: \<^verbatim>\<open>remaining\<close>, \<^verbatim>\<open>eliminatedMultiple\<close> and \<^verbatim>\<open>tiedOptions\<close>.
\<close>

definition same_round :: "Round \<Rightarrow> Round \<Rightarrow> bool" where
  "same_round r r' \<longleftrightarrow>
     round_no r = round_no r' \<and> voteCounts r = voteCounts r' \<and>
     percentages r = percentages r' \<and> eliminated r = eliminated r' \<and>
     map_option mset (eliminatedMultiple r) = map_option mset (eliminatedMultiple r') \<and>
     mset (remaining r) = mset (remaining r') \<and>
     majorityWinner r = majorityWinner r' \<and> round_tie r = round_tie r'"

definition same_outcome :: "TallyResult \<Rightarrow> TallyResult \<Rightarrow> bool" where
  "same_outcome res res' \<longleftrightarrow>
     list_all2 same_round (rounds res) (rounds res') \<and>
     winner res = winner res' \<and> tie res = tie res' \<and>
     map_option mset (tiedOptions res) = map_option mset (tiedOptions res') \<and>
     totalVotes res = totalVotes res' \<and> majorityThreshold res = majorityThreshold res' \<and>
     error res = error res'"

text \<open>
  A round record, and a result, whose lists of options are written in the order of the
  list \<open>options\<close>: \<^verbatim>\<open>remaining\<close> is a subsequence of the ids of \<open>options\<close>, and
  \<^verbatim>\<open>eliminatedMultiple\<close> and \<^verbatim>\<open>tiedOptions\<close> are subsequences of \<open>options\<close>.
\<close>

definition round_in_order :: "PollOption list \<Rightarrow> Round \<Rightarrow> bool" where
  "round_in_order options r \<longleftrightarrow>
     subseq (remaining r) (map opt_id options) \<and>
     (case eliminatedMultiple r of None \<Rightarrow> True | Some es \<Rightarrow> subseq es options)"

definition listed_in_order :: "PollOption list \<Rightarrow> TallyResult \<Rightarrow> bool" where
  "listed_in_order options res \<longleftrightarrow>
     list_all (round_in_order options) (rounds res) \<and>
     (case tiedOptions res of None \<Rightarrow> True | Some ts \<Rightarrow> subseq ts options)"

text \<open>
  The count of a round in the words of the specification (section 4.1, steps 3 and 1 of the
  round): \<open>spec_optionId\<close> is the option a ranking names, by its nested reference or by its
  bare id; \<open>spec_credited ids b\<close> is the first option, in ascending rank, that ballot \<open>b\<close>
  ranks among the remaining \<open>ids\<close>; \<open>spec_count ids ballots k\<close> is the number of ballots
  that credit \<open>k\<close>. \<open>counted_as_spec ballots r\<close>: the keys of \<^verbatim>\<open>voteCounts\<close> in the record
  \<open>r\<close> are the remaining ids in ascending order, each once, every remaining option has the
  count \<open>spec_count\<close> gives it, and the counts sum to the number of ballots that rank a
  remaining option.
\<close>

definition spec_optionId :: "Ranking \<Rightarrow> nat option" where
  "spec_optionId r = (case pollOption r of None \<Rightarrow> pollOptionId r | Some p \<Rightarrow> Some (opt_id p))"

definition spec_credited :: "nat list \<Rightarrow> Ballot \<Rightarrow> nat option" where
  "spec_credited remainingIds b =
     (case find (\<lambda>r. case spec_optionId r of None \<Rightarrow> False | Some k \<Rightarrow> k \<in> set remainingIds)
             (sort_key rank (rankings b)) of
        None \<Rightarrow> None
      | Some r \<Rightarrow> spec_optionId r)"

definition spec_count :: "nat list \<Rightarrow> Ballot list \<Rightarrow> nat \<Rightarrow> nat" where
  "spec_count remainingIds ballots k =
     length (filter (\<lambda>b. spec_credited remainingIds b = Some k) ballots)"

definition counted_as_spec :: "Ballot list \<Rightarrow> Round \<Rightarrow> bool" where
  "counted_as_spec ballots r \<longleftrightarrow>
     map fst (voteCounts r) = sorted_list_of_set (set (remaining r)) \<and>
     list_all (\<lambda>k. obj_get (voteCounts r) k = Some (spec_count (remaining r) ballots k))
       (remaining r) \<and>
     sum_list (obj_values (voteCounts r)) =
       length (filter (\<lambda>b. spec_credited (remaining r) b \<noteq> None) ballots)"

section \<open>What the count of a round is\<close>

lemma map_of_obj_set: "map_of (obj_set k v kvs) = (map_of kvs)(k \<mapsto> v)"
  by (induction kvs) (auto simp: fun_upd_twist)

lemma keys_obj_set: "fst ` set (obj_set k v kvs) = insert k (fst ` set kvs)"
proof (induction kvs)
  case Nil
  show ?case by simp
next
  case (Cons p kvs)
  obtain k' v' where p: "p = (k', v')" by (cases p)
  from Cons.IH show ?case unfolding p by (cases "k = k'"; cases "k < k'") auto
qed

lemma sorted_obj_set:
  "sorted_wrt (<) (map fst kvs) \<Longrightarrow> sorted_wrt (<) (map fst (obj_set k v kvs))"
proof (induction kvs)
  case Nil
  then show ?case by simp
next
  case (Cons p kvs)
  obtain k' v' where p: "p = (k', v')" by (cases p)
  have "\<forall>x \<in> fst ` set (obj_set k v kvs). k' < x" if "k' < k"
    using that Cons.prems unfolding keys_obj_set by (auto simp: p)
  with Cons show ?case by (auto simp: p)
qed

lemma sum_obj_set:
  "sorted_wrt (<) (map fst kvs) \<Longrightarrow> map_of kvs k = Some c \<Longrightarrow>
   sum_list (map snd (obj_set k (v::nat) kvs)) + c = sum_list (map snd kvs) + v"
proof (induction kvs)
  case Nil
  then show ?case by simp
next
  case (Cons p kvs)
  obtain k' v' where p: "p = (k', v')" by (cases p)
  show ?case
  proof (cases "k = k'")
    case True
    with Cons.prems show ?thesis by (simp add: p)
  next
    case False
    with Cons.prems have m: "map_of kvs k = Some c" by (simp add: p)
    then have "k \<in> set (map fst kvs)" by (metis map_of_eq_None_iff option.distinct(1) set_map)
    with Cons.prems have "k' < k" by (auto simp: p)
    with Cons.IH m Cons.prems False show ?thesis by (simp add: p)
  qed
qed

lemma fold_min_le_init: "fold (\<lambda>v m. min (enat v) m) vs a \<le> a"
proof (induction vs arbitrary: a)
  case Nil
  show ?case by simp
next
  case (Cons v vs)
  have "fold (\<lambda>v m. min (enat v) m) vs (min (enat v) a) \<le> min (enat v) a" by (rule Cons.IH)
  then show ?case by simp
qed

lemma fold_min_le_elem: "c \<in> set vs \<Longrightarrow> fold (\<lambda>v m. min (enat v) m) vs a \<le> enat c"
proof (induction vs arbitrary: a)
  case Nil
  then show ?case by simp
next
  case (Cons v vs)
  show ?case
  proof (cases "c = v")
    case True
    have "fold (\<lambda>v m. min (enat v) m) vs (min (enat v) a) \<le> min (enat v) a"
      by (rule fold_min_le_init)
    with True show ?thesis by simp
  next
    case False
    with Cons show ?thesis by simp
  qed
qed

lemma fold_min_attained:
  "fold (\<lambda>v m. min (enat v) m) vs a = a \<or> (\<exists>c \<in> set vs. fold (\<lambda>v m. min (enat v) m) vs a = enat c)"
proof (induction vs arbitrary: a)
  case Nil
  show ?case by simp
next
  case (Cons v vs)
  from Cons.IH [of "min (enat v) a"] show ?case
    by (auto simp: min_def split: if_splits)
qed

lemma Math_min_le: "c \<in> set vs \<Longrightarrow> Math_min vs \<le> enat c"
  by (simp add: Math_min_def fold_min_le_elem)

lemma Math_min_attained: "vs \<noteq> [] \<Longrightarrow> \<exists>c \<in> set vs. Math_min vs = enat c"
proof -
  assume ne: "vs \<noteq> []"
  then obtain c where c: "c \<in> set vs" by (cases vs) auto
  from Math_min_le [OF c] have "Math_min vs \<noteq> \<infinity>" by (cases "Math_min vs") auto
  with fold_min_attained [of vs \<infinity>] show ?thesis by (auto simp: Math_min_def)
qed

lemma firstChoice_in:
  "firstChoice rem rs = Some k \<Longrightarrow> k \<in> opt_id ` set rem"
  by (induction rs) (auto simp: list_ex_iff split: option.splits if_splits)

lemma distinct_keys: "sorted_wrt (<) (map fst (kvs :: (nat \<times> 'v) list)) \<Longrightarrow> distinct (map fst kvs)"
  using strict_sorted_iff by blast

lemma keys_obj_incr: "fst ` set (obj_incr k vc) = fst ` set vc"
proof (cases "map_of vc k")
  case None
  then show ?thesis by (simp add: obj_incr_def obj_get_def)
next
  case (Some c)
  then have "k \<in> fst ` set vc" by (metis map_of_eq_None_iff option.distinct(1))
  with Some show ?thesis by (simp add: obj_incr_def obj_get_def keys_obj_set insert_absorb)
qed

lemma sorted_obj_incr:
  "sorted_wrt (<) (map fst vc) \<Longrightarrow> sorted_wrt (<) (map fst (obj_incr k vc))"
  by (simp add: obj_incr_def sorted_obj_set split: option.splits)

lemma map_of_obj_incr:
  "map_of (obj_incr k vc) k' = (if k' = k then map_option Suc (map_of vc k) else map_of vc k')"
  by (simp add: obj_incr_def obj_get_def map_of_obj_set split: option.splits)

lemma sum_obj_incr:
  "sorted_wrt (<) (map fst vc) \<Longrightarrow>
   sum_list (map snd (obj_incr k vc)) = sum_list (map snd vc) + (if k \<in> fst ` set vc then 1 else 0)"
proof (cases "map_of vc k")
  case None
  then have "k \<notin> fst ` set vc" by (simp add: map_of_eq_None_iff)
  with None show ?thesis by (simp add: obj_incr_def obj_get_def)
next
  case (Some c)
  assume s: "sorted_wrt (<) (map fst vc)"
  from Some have "k \<in> fst ` set vc" by (metis map_of_eq_None_iff option.distinct(1))
  with sum_obj_set [OF s Some, of "c + 1"] Some show ?thesis
    by (simp add: obj_incr_def obj_get_def)
qed

lemma castBallot_None: "firstChoice rem (nb_rankings b) = None \<Longrightarrow> castBallot rem b vc = vc"
  by (simp add: castBallot_def)

lemma castBallot_Some:
  "firstChoice rem (nb_rankings b) = Some k \<Longrightarrow> castBallot rem b vc = obj_incr k vc"
  by (simp add: castBallot_def)

lemma keys_castBallot: "fst ` set (castBallot rem b vc) = fst ` set vc"
  by (cases "firstChoice rem (nb_rankings b)")
     (simp_all add: castBallot_None castBallot_Some keys_obj_incr)

lemma sorted_castBallot:
  "sorted_wrt (<) (map fst vc) \<Longrightarrow> sorted_wrt (<) (map fst (castBallot rem b vc))"
  by (cases "firstChoice rem (nb_rankings b)")
     (simp_all add: castBallot_None castBallot_Some sorted_obj_incr)

lemma keys_cast_fold: "fst ` set (fold (castBallot rem) nbs acc) = fst ` set acc"
  by (induction nbs arbitrary: acc) (simp_all add: keys_castBallot)

lemma sorted_cast_fold:
  "sorted_wrt (<) (map fst acc) \<Longrightarrow> sorted_wrt (<) (map fst (fold (castBallot rem) nbs acc))"
  by (induction nbs arbitrary: acc) (simp_all add: sorted_castBallot)

lemma map_of_castBallot:
  "map_of (castBallot rem b vc) k =
   map_option (\<lambda>c. c + (if firstChoice rem (nb_rankings b) = Some k then 1 else 0)) (map_of vc k)"
  by (cases "firstChoice rem (nb_rankings b)"; cases "map_of vc k")
     (auto simp: castBallot_None castBallot_Some map_of_obj_incr)

lemma map_of_cast_fold:
  "map_of (fold (castBallot rem) nbs acc) k =
   map_option (\<lambda>c. c + length (filter (\<lambda>b. firstChoice rem (nb_rankings b) = Some k) nbs))
     (map_of acc k)"
proof (induction nbs arbitrary: acc)
  case Nil
  show ?case by (simp add: option.map_ident)
next
  case (Cons b nbs)
  show ?case
    by (cases "map_of acc k") (simp_all add: Cons map_of_castBallot)
qed

lemma sum_castBallot:
  "sorted_wrt (<) (map fst vc) \<Longrightarrow>
   sum_list (map snd (castBallot rem b vc)) =
   sum_list (map snd vc) +
   (if (case firstChoice rem (nb_rankings b) of None \<Rightarrow> False | Some k \<Rightarrow> k \<in> fst ` set vc)
    then 1 else 0)"
  by (cases "firstChoice rem (nb_rankings b)")
     (simp_all add: castBallot_None castBallot_Some sum_obj_incr)

lemma sum_cast_fold:
  "sorted_wrt (<) (map fst acc) \<Longrightarrow>
   sum_list (map snd (fold (castBallot rem) nbs acc)) =
   sum_list (map snd acc) +
   length (filter (\<lambda>b. case firstChoice rem (nb_rankings b) of None \<Rightarrow> False
                        | Some k \<Rightarrow> k \<in> fst ` set acc) nbs)"
proof (induction nbs arbitrary: acc)
  case Nil
  show ?case by simp
next
  case (Cons b nbs)
  have "sorted_wrt (<) (map fst (castBallot rem b acc))"
    using Cons.prems by (rule sorted_castBallot)
  from Cons.IH [OF this] Cons.prems show ?case
    by (simp add: keys_castBallot sum_castBallot cong: option.case_cong)
qed

lemma init_fold_keys:
  "fst ` set (fold (\<lambda>opt vc. obj_set (opt_id opt) (0::nat) vc) rem acc) =
   fst ` set acc \<union> opt_id ` set rem"
  by (induction rem arbitrary: acc) (auto simp: keys_obj_set)

lemma init_fold_sorted:
  "sorted_wrt (<) (map fst acc) \<Longrightarrow>
   sorted_wrt (<) (map fst (fold (\<lambda>opt vc. obj_set (opt_id opt) (0::nat) vc) rem acc))"
  by (induction rem arbitrary: acc) (simp_all add: sorted_obj_set)

lemma init_fold_map_of:
  "map_of (fold (\<lambda>opt vc. obj_set (opt_id opt) (0::nat) vc) rem acc) k =
   (if k \<in> opt_id ` set rem then Some 0 else map_of acc k)"
  by (induction rem arbitrary: acc) (auto simp: map_of_obj_set)

lemma initCounts_keys: "fst ` set (initCounts rem) = opt_id ` set rem"
  by (simp add: initCounts_def init_fold_keys)

lemma initCounts_sorted: "sorted_wrt (<) (map fst (initCounts rem))"
  by (simp add: initCounts_def init_fold_sorted)

lemma initCounts_map_of:
  "map_of (initCounts rem) k = (if k \<in> opt_id ` set rem then Some 0 else None)"
  by (simp add: initCounts_def init_fold_map_of)

lemma initCounts_sum: "sum_list (map snd (initCounts rem)) = 0"
proof -
  have "v = 0" if "(k, v) \<in> set (initCounts rem)" for k v
  proof -
    from that have "map_of (initCounts rem) k = Some v"
      using initCounts_sorted [of rem] by (simp add: distinct_keys)
    then show ?thesis by (simp add: initCounts_map_of split: if_splits)
  qed
  then show ?thesis by (auto simp: sum_list_eq_0_iff)
qed

lemma countVotes_keys: "fst ` set (countVotes rem nbs) = opt_id ` set rem"
  by (simp add: countVotes_def keys_cast_fold initCounts_keys)

lemma countVotes_sorted: "sorted_wrt (<) (map fst (countVotes rem nbs))"
  by (simp add: countVotes_def sorted_cast_fold initCounts_sorted)

lemma countVotes_get:
  "obj_get (countVotes rem nbs) k =
   (if k \<in> opt_id ` set rem
    then Some (length (filter (\<lambda>b. firstChoice rem (nb_rankings b) = Some k) nbs))
    else None)"
  by (simp add: obj_get_def countVotes_def map_of_cast_fold initCounts_map_of)

lemma countVotes_sum:
  "sum_list (obj_values (countVotes rem nbs)) =
   length (filter (\<lambda>b. firstChoice rem (nb_rankings b) \<noteq> None) nbs)"
proof -
  have "(case firstChoice rem (nb_rankings b) of None \<Rightarrow> False
         | Some k \<Rightarrow> k \<in> fst ` set (initCounts rem)) =
        (firstChoice rem (nb_rankings b) \<noteq> None)" for b
    using firstChoice_in [of rem "nb_rankings b"]
    by (auto simp: initCounts_keys split: option.splits)
  then have "filter (\<lambda>b. case firstChoice rem (nb_rankings b) of None \<Rightarrow> False
         | Some k \<Rightarrow> k \<in> fst ` set (initCounts rem)) nbs =
        filter (\<lambda>b. firstChoice rem (nb_rankings b) \<noteq> None) nbs"
    by (intro filter_cong) simp_all
  then show ?thesis
    by (simp only: obj_values_def countVotes_def sum_cast_fold [OF initCounts_sorted]
        initCounts_sum add_0)
qed

lemma alist_rebuild:
  "distinct (map fst xs) \<Longrightarrow> xs = map (\<lambda>k. (k, the (map_of xs k))) (map fst xs)"
proof (induction xs)
  case Nil
  show ?case by simp
next
  case (Cons p xs)
  obtain k v where p: "p = (k, v)" by (cases p)
  from Cons.prems have nk: "k \<notin> fst ` set xs" and d: "distinct (map fst xs)" by (simp_all add: p)
  have "map (\<lambda>k'. (k', the (map_of (p # xs) k'))) (map fst xs) =
        map (\<lambda>k'. (k', the (map_of xs k'))) (map fst xs)"
    using nk by (intro map_cong) (auto simp: p)
  with Cons.IH [OF d] show ?case by (simp add: p)
qed

lemma sorted_alist_eqI:
  assumes sx: "sorted_wrt (<) (map fst xs)" and sy: "sorted_wrt (<) (map fst ys)"
    and m: "map_of xs = map_of ys"
  shows "xs = (ys :: (nat \<times> 'v) list)"
proof -
  have dx: "distinct (map fst xs)" and dy: "distinct (map fst ys)"
    using sx sy by (simp_all add: distinct_keys)
  have "fst ` set xs = fst ` set ys"
    using m by (metis dom_map_of_conv_image_fst)
  then have "set (map fst xs) = set (map fst ys)" by simp
  with sx sy have k: "map fst xs = map fst ys"
    by (intro sorted_distinct_set_unique) (simp_all add: strict_sorted_iff)
  have "xs = map (\<lambda>k. (k, the (map_of xs k))) (map fst xs)" using dx by (rule alist_rebuild)
  also have "\<dots> = map (\<lambda>k. (k, the (map_of ys k))) (map fst ys)" by (simp only: m k)
  also have "\<dots> = ys" using dy by (rule alist_rebuild [symmetric])
  finally show ?thesis .
qed

lemma min_attained:
  assumes "rem \<noteq> []"
  shows "\<exists>opt \<in> set rem.
           count_is (countVotes rem nbs) (opt_id opt) (Math_min (obj_values (countVotes rem nbs)))"
proof -
  let ?vc = "countVotes rem nbs"
  from assms have "fst ` set ?vc \<noteq> {}" by (simp add: countVotes_keys)
  then have "obj_values ?vc \<noteq> []" by (auto simp: obj_values_def)
  from Math_min_attained [OF this] obtain c where
    c: "c \<in> set (obj_values ?vc)" and m: "Math_min (obj_values ?vc) = enat c" by blast
  from c obtain k where kc: "(k, c) \<in> set ?vc" by (auto simp: obj_values_def)
  then have g: "obj_get ?vc k = Some c"
    using countVotes_sorted [of rem nbs] by (simp add: obj_get_def distinct_keys)
  from kc have "k \<in> fst ` set ?vc" by force
  then obtain opt where o: "opt \<in> set rem" "opt_id opt = k" by (auto simp: countVotes_keys)
  with g m have "count_is ?vc (opt_id opt) (Math_min (obj_values ?vc))"
    by (simp add: count_is_def)
  with o show ?thesis by blast
qed

lemma filter_out_shrinks:
  assumes "x \<in> set xs" "P x"
  shows "length (filter (\<lambda>opt. opt_id opt \<notin> set (map opt_id (filter P xs))) xs) < length xs"
proof -
  from assms have "x \<in> set xs" "\<not> (opt_id x \<notin> set (map opt_id (filter P xs)))" by auto
  then show ?thesis by (rule length_filter_less)
qed

lemma round_irv_shrinks:
  assumes "round_irv totalV threshold nbs rnds rem = Inr (rnds', rem')"
  shows "length rem' < length rem"
proof -
  let ?vc = "countVotes rem nbs"
  let ?P = "\<lambda>opt. count_is ?vc (opt_id opt) (Math_min (obj_values ?vc))"
  from assms have r: "rem' = filter (\<lambda>opt. opt_id opt \<notin> set (map opt_id (filter ?P rem))) rem"
    and ne: "rem' \<noteq> []"
    by (auto simp: round_irv_def Let_def split: option.splits if_splits)
  from r ne have "rem \<noteq> []" by auto
  from min_attained [OF this, of nbs] obtain x where "x \<in> set rem" "?P x" by blast
  then show ?thesis unfolding r by (rule filter_out_shrinks)
qed

termination calculateIRV_loop
  by (relation "measure (\<lambda>(totalV, threshold, nbs, rnds, rem). length rem)")
     (auto dest: round_irv_shrinks)

declare calculateIRV_loop.simps [simp del]

lemma lowest_in_set:
  "fold (\<lambda>current lowest. if opt_id current < opt_id lowest then current else lowest) ms m
   \<in> set (m # ms)"
proof (induction ms arbitrary: m)
  case Nil
  show ?case by simp
next
  case (Cons a ms)
  from Cons [of "if opt_id a < opt_id m then a else m"] show ?case
    by (auto split: if_splits)
qed

lemma single_or_all: "(if length (m # ms) > 1 then m # ms else [m]) = m # ms"
  by (cases ms) simp_all

lemma round_p7_shrinks:
  assumes "round_p7 totalV threshold nbs rnds rem = Continue rnds' rem'"
  shows "length rem' < length rem"
proof -
  let ?vc = "countVotes rem nbs"
  let ?P = "\<lambda>opt. count_is ?vc (opt_id opt) (Math_min (obj_values ?vc))"
  from assms obtain m ms where mv: "filter ?P rem = m # ms"
    and r: "rem' = filter (\<lambda>opt. opt_id opt \<noteq>
               opt_id (fold (\<lambda>current lowest. if opt_id current < opt_id lowest then current
                                               else lowest) ms m)) rem
            \<or> rem' = filter (\<lambda>opt. opt_id opt \<notin> set (map opt_id (filter ?P rem))) rem"
    by (auto simp: round_p7_def Let_def single_or_all split: option.splits if_splits list.splits)
  have sub: "set (m # ms) \<subseteq> set rem" using mv by (metis filter_is_subset set_filter)
  from r show ?thesis
  proof
    assume a: "rem' = filter (\<lambda>opt. opt_id opt \<noteq>
               opt_id (fold (\<lambda>current lowest. if opt_id current < opt_id lowest then current
                                               else lowest) ms m)) rem"
    let ?e = "fold (\<lambda>current lowest. if opt_id current < opt_id lowest then current
                                               else lowest) ms m"
    have "?e \<in> set rem" using lowest_in_set [of ms m] sub by blast
    moreover have "\<not> (opt_id ?e \<noteq> opt_id ?e)" by simp
    ultimately show ?thesis unfolding a by (rule length_filter_less)
  next
    assume a: "rem' = filter (\<lambda>opt. opt_id opt \<notin> set (map opt_id (filter ?P rem))) rem"
    have "m \<in> set rem" using sub by simp
    moreover have "?P m" using mv by (metis filter_eq_ConsD)
    ultimately show ?thesis unfolding a by (rule filter_out_shrinks)
  qed
qed

termination calculateIRV_p7_loop
  by (relation "measure (\<lambda>(totalV, threshold, nbs, rnds, rem). length rem)")
     (auto dest: round_p7_shrinks)

declare calculateIRV_p7_loop.simps [simp del]

section \<open>Counts as numbers of ballots\<close>

lemma count_get_in:
  "opt \<in> set rem \<Longrightarrow> obj_get (countVotes rem nbs) (opt_id opt) = Some (votesFor rem nbs (opt_id opt))"
  by (simp add: countVotes_get votesFor_def)

lemma count_ge_iff:
  "opt \<in> set rem \<Longrightarrow>
   count_ge (countVotes rem nbs) (opt_id opt) t = (t \<le> votesFor rem nbs (opt_id opt))"
  by (simp add: count_ge_def count_get_in)

lemma count_is_iff:
  "opt \<in> set rem \<Longrightarrow>
   count_is (countVotes rem nbs) (opt_id opt) (enat m) = (votesFor rem nbs (opt_id opt) = m)"
  by (simp add: count_is_def count_get_in)

lemma find_majority:
  "find (\<lambda>opt. count_ge (countVotes rem nbs) (opt_id opt) t) rem =
   find (\<lambda>opt. t \<le> votesFor rem nbs (opt_id opt)) rem"
  by (rule find_cong) (simp_all add: count_ge_iff)

lemma filter_min:
  "filter (\<lambda>opt. count_is (countVotes rem nbs) (opt_id opt) (enat m)) rem =
   filter (\<lambda>opt. votesFor rem nbs (opt_id opt) = m) rem"
  by (rule filter_cong) (simp_all add: count_is_iff)

lemma find_min:
  "find (\<lambda>opt. count_is (countVotes rem nbs) (opt_id opt) (enat m)) rem =
   find (\<lambda>opt. votesFor rem nbs (opt_id opt) = m) rem"
  by (rule find_cong) (simp_all add: count_is_iff)

lemma values_set:
  "set (obj_values (countVotes rem nbs)) = (\<lambda>opt. votesFor rem nbs (opt_id opt)) ` set rem"
proof -
  let ?vc = "countVotes rem nbs"
  have d: "distinct (map fst ?vc)" using countVotes_sorted by (rule distinct_keys)
  have "c \<in> set (obj_values ?vc) \<longleftrightarrow> c \<in> (\<lambda>opt. votesFor rem nbs (opt_id opt)) ` set rem" for c
  proof
    assume "c \<in> set (obj_values ?vc)"
    then obtain k where kc: "(k, c) \<in> set ?vc" by (auto simp: obj_values_def)
    then have g: "obj_get ?vc k = Some c" using d by (simp add: obj_get_def)
    from kc have "k \<in> fst ` set ?vc" by force
    then obtain opt where o: "opt \<in> set rem" "opt_id opt = k" by (auto simp: countVotes_keys)
    with g count_get_in [of opt rem nbs] have "c = votesFor rem nbs (opt_id opt)" by simp
    with o show "c \<in> (\<lambda>opt. votesFor rem nbs (opt_id opt)) ` set rem" by blast
  next
    assume "c \<in> (\<lambda>opt. votesFor rem nbs (opt_id opt)) ` set rem"
    then obtain opt where o: "opt \<in> set rem" "c = votesFor rem nbs (opt_id opt)" by blast
    then have "map_of ?vc (opt_id opt) = Some c"
      using count_get_in [of opt rem nbs] by (simp add: obj_get_def)
    then have "(opt_id opt, c) \<in> set ?vc" by (rule map_of_SomeD)
    then show "c \<in> set (obj_values ?vc)" by (force simp: obj_values_def)
  qed
  then show ?thesis by blast
qed

lemma minVotes_eq:
  assumes "rem \<noteq> []"
  shows "Math_min (obj_values (countVotes rem nbs)) =
         enat (Min ((\<lambda>opt. votesFor rem nbs (opt_id opt)) ` set rem))"
proof -
  let ?vs = "obj_values (countVotes rem nbs)"
  from assms have ne: "?vs \<noteq> []" using values_set [of rem nbs] by (metis image_is_empty set_empty)
  from Math_min_attained [OF ne] obtain c where c: "c \<in> set ?vs" "Math_min ?vs = enat c" by blast
  have "c \<le> c'" if "c' \<in> set ?vs" for c'
    using Math_min_le [OF that] c by simp
  with c have "Min (set ?vs) = c" by (intro Min_eqI) auto
  with c show ?thesis by (simp add: values_set)
qed

lemma allSame_iff:
  "list_all (\<lambda>c. enat c = enat m) (obj_values (countVotes rem nbs)) \<longleftrightarrow>
   (\<forall>opt \<in> set rem. votesFor rem nbs (opt_id opt) = m)"
  by (auto simp: list_all_iff values_set)

lemma votes_two_le:
  assumes "i \<noteq> j"
  shows "votesFor rem nbs i + votesFor rem nbs j \<le> length nbs"
proof -
  have "length (filter (\<lambda>b. firstChoice rem (nb_rankings b) = Some i) nbs) +
        length (filter (\<lambda>b. firstChoice rem (nb_rankings b) = Some j) nbs) \<le> length nbs"
    using assms by (induction nbs) auto
  then show ?thesis by (simp add: votesFor_def)
qed

lemma majority_unique:
  assumes "length nbs div 2 + 1 \<le> votesFor rem nbs i" "length nbs div 2 + 1 \<le> votesFor rem nbs j"
  shows "i = j"
proof (rule ccontr)
  assume "i \<noteq> j"
  from votes_two_le [OF this, of rem nbs] assms show False by linarith
qed

section \<open>Reasoning about the two loops\<close>

text \<open>
  An invariant rule for each loop: \<open>I\<close> holds of the state at the head of every pass,
  \<open>Q\<close> of whatever is returned. The rule for \<^verbatim>\<open>part_007\<close> also says that a result is
  returned: none of its \<open>Throw\<close> branches is reached.
\<close>

lemma loop_irv_rule:
  assumes init: "I rnds rem"
    and final: "\<And>rnds rem. \<not> 1 < length rem \<Longrightarrow> I rnds rem \<Longrightarrow>
        Q \<lparr>rounds = rnds, winner = js_index rem 0, tie = False, tiedOptions = None,
           totalVotes = Some totalV, majorityThreshold = Some threshold, error = None\<rparr>"
    and ret: "\<And>rnds rem res. 1 < length rem \<Longrightarrow> I rnds rem \<Longrightarrow>
        round_irv totalV threshold nbs rnds rem = Inl res \<Longrightarrow> Q res"
    and cont: "\<And>rnds rem rnds' rem'. 1 < length rem \<Longrightarrow> I rnds rem \<Longrightarrow>
        round_irv totalV threshold nbs rnds rem = Inr (rnds', rem') \<Longrightarrow> I rnds' rem'"
  shows "Q (calculateIRV_loop totalV threshold nbs rnds rem)"
  using init final ret cont
proof (induction totalV threshold nbs rnds rem rule: calculateIRV_loop.induct)
  case (1 totalV threshold nbs rnds rem)
  note init = "1.prems"(1) and final = "1.prems"(2) and ret = "1.prems"(3)
    and cont = "1.prems"(4)
  show ?case
  proof (cases "1 < length rem")
    case False
    with final [OF False init] show ?thesis
      by (simp add: calculateIRV_loop.simps [of _ _ _ _ rem])
  next
    case True
    show ?thesis
    proof (cases "round_irv totalV threshold nbs rnds rem")
      case (Inl res)
      with True ret [OF True init Inl] show ?thesis
        by (simp add: calculateIRV_loop.simps [of _ _ _ _ rem])
    next
      case (Inr st)
      obtain rnds' rem' where st: "st = (rnds', rem')" by (cases st)
      have "I rnds' rem'" using cont [OF True init] Inr st by simp
      from "1.IH" [OF True Inr [unfolded st] refl this final ret cont] True Inr st show ?thesis
        by (simp add: calculateIRV_loop.simps [of _ _ _ _ rem])
    qed
  qed
qed

lemma round_p7_no_throw:
  assumes "rem \<noteq> []"
  shows "round_p7 totalV threshold nbs rnds rem \<noteq> Throw e"
proof -
  let ?vc = "countVotes rem nbs"
  let ?P = "\<lambda>opt. count_is ?vc (opt_id opt) (Math_min (obj_values ?vc))"
  from min_attained [OF assms, of nbs] obtain x where x: "x \<in> set rem" "?P x" by blast
  then have f: "filter ?P rem \<noteq> []" by (auto simp: filter_empty_conv)
  from x have g: "find ?P rem \<noteq> None" by (auto simp: find_None_iff)
  from f g show ?thesis
    by (auto simp: round_p7_def Let_def split: option.splits if_splits list.splits)
qed

lemma loop_p7_rule:
  assumes init: "I rnds rem"
    and final: "\<And>rnds rem. \<not> 1 < length rem \<Longrightarrow> I rnds rem \<Longrightarrow>
        Q \<lparr>rounds = rnds, winner = js_index rem 0, tie = False, tiedOptions = None,
           totalVotes = Some totalV, majorityThreshold = Some threshold, error = None\<rparr>"
    and ret: "\<And>rnds rem res. 1 < length rem \<Longrightarrow> I rnds rem \<Longrightarrow>
        round_p7 totalV threshold nbs rnds rem = Return res \<Longrightarrow> Q res"
    and cont: "\<And>rnds rem rnds' rem'. 1 < length rem \<Longrightarrow> I rnds rem \<Longrightarrow>
        round_p7 totalV threshold nbs rnds rem = Continue rnds' rem' \<Longrightarrow> I rnds' rem'"
  shows "\<exists>res. calculateIRV_p7_loop totalV threshold nbs rnds rem = Inr res \<and> Q res"
  using init final ret cont
proof (induction totalV threshold nbs rnds rem rule: calculateIRV_p7_loop.induct)
  case (1 totalV threshold nbs rnds rem)
  note init = "1.prems"(1) and final = "1.prems"(2) and ret = "1.prems"(3)
    and cont = "1.prems"(4)
  show ?case
  proof (cases "1 < length rem")
    case False
    with final [OF False init] show ?thesis
      by (simp add: calculateIRV_p7_loop.simps [of _ _ _ _ rem])
  next
    case True
    then have ne: "rem \<noteq> []" by auto
    show ?thesis
    proof (cases "round_p7 totalV threshold nbs rnds rem")
      case (Return res)
      with True ret [OF True init Return] show ?thesis
        by (simp add: calculateIRV_p7_loop.simps [of _ _ _ _ rem])
    next
      case (Continue rnds' rem')
      have "I rnds' rem'" using cont [OF True init Continue] .
      from "1.IH" [OF True Continue this final ret cont] True Continue show ?thesis
        by (simp add: calculateIRV_p7_loop.simps [of _ _ _ _ rem])
    next
      case (Throw e)
      with round_p7_no_throw [OF ne] show ?thesis by blast
    qed
  qed
qed

lemma find_Some_in: "find P xs = Some x \<Longrightarrow> x \<in> set xs \<and> P x"
  by (induction xs) (auto split: if_splits)

lemma round_irv_Inl_played:
  assumes "1 < length rem" "round_irv totalV threshold nbs rnds rem = Inl res"
  shows "rounds res \<noteq> [] \<and> butlast (rounds res) = rnds \<and> played_on threshold nbs rem (last (rounds res))"
  using assms
  by (auto simp: round_irv_def Let_def played_on_def dest: find_Some_in
           split: option.splits if_splits)

lemma round_irv_Inr_played:
  assumes "1 < length rem" "round_irv totalV threshold nbs rnds rem = Inr (rnds', rem')"
  shows "rnds' \<noteq> [] \<and> butlast rnds' = rnds \<and> played_on threshold nbs rem (last rnds')"
  using assms
  by (auto simp: round_irv_def Let_def played_on_def dest: find_Some_in
           split: option.splits if_splits)

lemma round_p7_Return_played:
  assumes "1 < length rem" "round_p7 totalV threshold nbs rnds rem = Return res"
  shows "rounds res \<noteq> [] \<and> butlast (rounds res) = rnds \<and> played_on threshold nbs rem (last (rounds res))"
  using assms
  by (auto simp: round_p7_def Let_def played_on_def dest: find_Some_in
           split: option.splits if_splits list.splits)

lemma round_p7_Continue_played:
  assumes "1 < length rem" "round_p7 totalV threshold nbs rnds rem = Continue rnds' rem'"
  shows "rnds' \<noteq> [] \<and> butlast rnds' = rnds \<and> played_on threshold nbs rem (last rnds')"
  using assms
  by (auto simp: round_p7_def Let_def played_on_def dest: find_Some_in
           split: option.splits if_splits list.splits)

lemma round_p7_totals:
  "round_p7 totalV threshold nbs rnds rem = Return res \<Longrightarrow>
   totalVotes res = Some totalV \<and> majorityThreshold res = Some threshold"
  by (auto simp: round_p7_def Let_def split: option.splits if_splits list.splits)

lemma round_irv_totals:
  "round_irv totalV threshold nbs rnds rem = Inl res \<Longrightarrow>
   totalVotes res = Some totalV \<and> majorityThreshold res = Some threshold"
  by (auto simp: round_irv_def Let_def split: option.splits if_splits)

lemma loop_irv_played:
  assumes "\<forall>r \<in> set rnds. \<exists>rem'. played_on threshold nbs rem' r"
  shows "\<forall>r \<in> set (rounds (calculateIRV_loop totalV threshold nbs rnds rem)).
           \<exists>rem'. played_on threshold nbs rem' r"
proof (rule loop_irv_rule [where I = "\<lambda>rnds rem. \<forall>r \<in> set rnds. \<exists>rem'. played_on threshold nbs rem' r"])
  show "\<forall>r \<in> set rnds. \<exists>rem'. played_on threshold nbs rem' r" by (rule assms)
next
  fix rnds rem
  assume "\<forall>r \<in> set rnds. \<exists>rem'. played_on threshold nbs rem' r"
  then show "\<forall>r\<in>set (rounds \<lparr>rounds = rnds, winner = js_index rem 0, tie = False,
                       tiedOptions = None, totalVotes = Some totalV,
                       majorityThreshold = Some threshold, error = None\<rparr>).
                \<exists>rem'. played_on threshold nbs rem' r" by simp
next
  fix rnds rem res
  assume "1 < length rem" "\<forall>r \<in> set rnds. \<exists>rem'. played_on threshold nbs rem' r"
    "round_irv totalV threshold nbs rnds rem = Inl res"
  then show "\<forall>r\<in>set (rounds res). \<exists>rem'. played_on threshold nbs rem' r"
    using round_irv_Inl_played [of rem totalV threshold nbs rnds res]
    by (metis append_butlast_last_id rotate1.simps(2) set_ConsD set_rotate1)
next
  fix rnds rem rnds' rem'
  assume "1 < length rem" "\<forall>r \<in> set rnds. \<exists>rem'. played_on threshold nbs rem' r"
    "round_irv totalV threshold nbs rnds rem = Inr (rnds', rem')"
  then show "\<forall>r\<in>set rnds'. \<exists>rem'. played_on threshold nbs rem' r"
    using round_irv_Inr_played [of rem totalV threshold nbs rnds rnds' rem']
    by (metis append_butlast_last_id rotate1.simps(2) set_ConsD set_rotate1)
qed

lemma loop_p7_played:
  assumes "\<forall>r \<in> set rnds. \<exists>rem'. played_on threshold nbs rem' r"
  shows "\<exists>res. calculateIRV_p7_loop totalV threshold nbs rnds rem = Inr res \<and>
           totalVotes res = Some totalV \<and> majorityThreshold res = Some threshold \<and>
           (\<forall>r \<in> set (rounds res). \<exists>rem'. played_on threshold nbs rem' r)"
proof (rule loop_p7_rule [where I = "\<lambda>rnds rem. \<forall>r \<in> set rnds. \<exists>rem'. played_on threshold nbs rem' r"])
  show "\<forall>r \<in> set rnds. \<exists>rem'. played_on threshold nbs rem' r" by (rule assms)
next
  fix rnds rem
  assume "\<forall>r \<in> set rnds. \<exists>rem'. played_on threshold nbs rem' r"
  then show "totalVotes \<lparr>rounds = rnds, winner = js_index rem 0, tie = False,
                       tiedOptions = None, totalVotes = Some totalV,
                       majorityThreshold = Some threshold, error = None\<rparr> = Some totalV \<and>
      majorityThreshold \<lparr>rounds = rnds, winner = js_index rem 0, tie = False,
                       tiedOptions = None, totalVotes = Some totalV,
                       majorityThreshold = Some threshold, error = None\<rparr> = Some threshold \<and>
      (\<forall>r\<in>set (rounds \<lparr>rounds = rnds, winner = js_index rem 0, tie = False,
                       tiedOptions = None, totalVotes = Some totalV,
                       majorityThreshold = Some threshold, error = None\<rparr>).
                \<exists>rem'. played_on threshold nbs rem' r)" by simp
next
  fix rnds rem res
  assume "1 < length rem" "\<forall>r \<in> set rnds. \<exists>rem'. played_on threshold nbs rem' r"
    "round_p7 totalV threshold nbs rnds rem = Return res"
  then show "totalVotes res = Some totalV \<and> majorityThreshold res = Some threshold \<and>
     (\<forall>r\<in>set (rounds res). \<exists>rem'. played_on threshold nbs rem' r)"
    using round_p7_Return_played [of rem totalV threshold nbs rnds res]
      round_p7_totals [of totalV threshold nbs rnds rem res]
    by (metis append_butlast_last_id rotate1.simps(2) set_ConsD set_rotate1)
next
  fix rnds rem rnds' rem'
  assume "1 < length rem" "\<forall>r \<in> set rnds. \<exists>rem'. played_on threshold nbs rem' r"
    "round_p7 totalV threshold nbs rnds rem = Continue rnds' rem'"
  then show "\<forall>r\<in>set rnds'. \<exists>rem'. played_on threshold nbs rem' r"
    using round_p7_Continue_played [of rem totalV threshold nbs rnds rnds' rem']
    by (metis append_butlast_last_id rotate1.simps(2) set_ConsD set_rotate1)
qed

lemma loop_irv_totals:
  "totalVotes (calculateIRV_loop totalV threshold nbs rnds rem) = Some totalV \<and>
   majorityThreshold (calculateIRV_loop totalV threshold nbs rnds rem) = Some threshold"
  by (rule loop_irv_rule [where I = "\<lambda>rnds rem. True"]) (simp_all add: round_irv_totals)

lemma played_majority:
  "played_on threshold nbs rem r \<Longrightarrow> majorityWinner r = Some k \<Longrightarrow>
   count_ge (voteCounts r) k threshold"
  by (simp add: played_on_def)

lemma copy_options: "map (\<lambda>opt. \<lparr>opt_id = opt_id opt, opt_text = opt_text opt\<rparr>) options = options"
  by (induction options) simp_all

lemma calculateIRV_nonempty:
  "options \<noteq> [] \<Longrightarrow> ballots \<noteq> [] \<Longrightarrow>
   calculateIRV options ballots =
   calculateIRV_loop (length ballots) (length ballots div 2 + 1) (map normalizeBallot ballots) []
     options"
  by (simp add: calculateIRV_def Let_def copy_options)

lemma calculateIRV_p7_nonempty:
  "options \<noteq> [] \<Longrightarrow> ballots \<noteq> [] \<Longrightarrow>
   calculateIRV_p7 options ballots =
   calculateIRV_p7_loop (length ballots) (length ballots div 2 + 1) (map normalizeBallot ballots) []
     options"
  by (simp add: calculateIRV_p7_def Let_def copy_options)

lemma firstChoice_Some_iff:
  "firstChoice rem rs \<noteq> None \<longleftrightarrow>
   (\<exists>r \<in> set rs. \<exists>k \<in> opt_id ` set rem. n_pollOptionId r = Some k)"
  by (induction rs) (auto simp: list_ex_iff split: option.splits)

lemma firstChoice_normalized:
  "firstChoice rem (nb_rankings (normalizeBallot b)) \<noteq> None \<longleftrightarrow>
   (\<exists>rk \<in> set (rankings b). \<exists>k \<in> opt_id ` set rem. resolveOptionId rk = Some k)"
proof -
  have "set (nb_rankings (normalizeBallot b)) =
        (\<lambda>r. \<lparr>n_pollOptionId = resolveOptionId r, n_rank = rank r\<rparr>) ` set (rankings b)"
    by (simp add: normalizeBallot_def)
  then show ?thesis unfolding firstChoice_Some_iff by simp
qed

lemma length_filter_eq_iff: "length (filter P xs) = length xs \<longleftrightarrow> (\<forall>x \<in> set xs. P x)"
proof (induction xs)
  case Nil
  show ?case by simp
next
  case (Cons x xs)
  have "length (filter P xs) \<noteq> Suc (length xs)"
    using length_filter_le [of P xs] by linarith
  with Cons show ?case by auto
qed

lemma played_sum:
  assumes "played_on threshold (map normalizeBallot ballots) rem r"
  shows "fst ` set (voteCounts r) = set (remaining r) \<and>
         distinct (map fst (voteCounts r)) \<and>
         sum_list (obj_values (voteCounts r)) \<le> length ballots \<and>
         (sum_list (obj_values (voteCounts r)) = length ballots \<longleftrightarrow>
          (\<forall>b \<in> set ballots. \<exists>rk \<in> set (rankings b). \<exists>k \<in> set (remaining r).
             resolveOptionId rk = Some k))"
proof -
  let ?nbs = "map normalizeBallot ballots"
  from assms have vc: "voteCounts r = countVotes rem ?nbs" and rm: "remaining r = map opt_id rem"
    by (simp_all add: played_on_def)
  have s: "sum_list (obj_values (voteCounts r)) =
           length (filter (\<lambda>b. firstChoice rem (nb_rankings b) \<noteq> None) ?nbs)"
    by (simp only: vc countVotes_sum)
  have le: "sum_list (obj_values (voteCounts r)) \<le> length ballots"
    unfolding s using length_filter_le [of _ ?nbs] by simp
  have eq: "sum_list (obj_values (voteCounts r)) = length ballots \<longleftrightarrow>
          (\<forall>b \<in> set ballots. \<exists>rk \<in> set (rankings b). \<exists>k \<in> set (remaining r).
             resolveOptionId rk = Some k)"
  proof -
    have "sum_list (obj_values (voteCounts r)) = length ballots \<longleftrightarrow>
          length (filter (\<lambda>b. firstChoice rem (nb_rankings b) \<noteq> None) ?nbs) = length ?nbs"
      unfolding s by simp
    also have "\<dots> \<longleftrightarrow> (\<forall>nb \<in> set ?nbs. firstChoice rem (nb_rankings nb) \<noteq> None)"
      by (rule length_filter_eq_iff)
    also have "\<dots> \<longleftrightarrow> (\<forall>b \<in> set ballots. firstChoice rem (nb_rankings (normalizeBallot b)) \<noteq> None)"
      by simp
    also have "\<dots> \<longleftrightarrow> (\<forall>b \<in> set ballots. \<exists>rk \<in> set (rankings b). \<exists>k \<in> set (remaining r).
             resolveOptionId rk = Some k)"
      by (simp only: firstChoice_normalized rm set_map)
    finally show ?thesis .
  qed
  have k: "fst ` set (voteCounts r) = set (remaining r)" by (simp add: vc rm countVotes_keys)
  have d: "distinct (map fst (voteCounts r))" unfolding vc using countVotes_sorted by (rule distinct_keys)
  from k d le eq show ?thesis by blast
qed

section \<open>The two rounds in terms of \<open>votesFor\<close>\<close>

text \<open>
  \<open>round_irv_sem\<close> and \<open>round_p7_sem\<close> restate a pass on two or more options with every
  test on \<^verbatim>\<open>voteCounts\<close> read as a test on \<open>votesFor\<close>; the branch that returns ``All
  options eliminated'' is gone from both, since an option whose count is not the minimum
  is never removed.
\<close>

lemma minVotes_minVote:
  "rem \<noteq> [] \<Longrightarrow> Math_min (obj_values (countVotes rem nbs)) = enat (minVote rem nbs)"
  by (simp add: minVotes_eq minVote_def)

lemma minVote_le: "opt \<in> set rem \<Longrightarrow> minVote rem nbs \<le> votesFor rem nbs (opt_id opt)"
  by (simp add: minVote_def)

lemma minVote_attained:
  "rem \<noteq> [] \<Longrightarrow> \<exists>opt \<in> set rem. votesFor rem nbs (opt_id opt) = minVote rem nbs"
proof -
  assume "rem \<noteq> []"
  then have "Min ((\<lambda>opt. votesFor rem nbs (opt_id opt)) ` set rem)
             \<in> (\<lambda>opt. votesFor rem nbs (opt_id opt)) ` set rem"
    by (intro Min_in) simp_all
  then show ?thesis by (auto simp: minVote_def)
qed

lemma elim_filter:
  "filter (\<lambda>opt. opt_id opt \<notin>
       set (map opt_id (filter (\<lambda>opt. votesFor rem nbs (opt_id opt) = m) rem))) rem =
   filter (\<lambda>opt. votesFor rem nbs (opt_id opt) \<noteq> m) rem"
proof (rule filter_cong [OF refl])
  fix x
  assume x: "x \<in> set rem"
  show "(opt_id x \<notin> set (map opt_id (filter (\<lambda>opt. votesFor rem nbs (opt_id opt) = m) rem)))
        = (votesFor rem nbs (opt_id x) \<noteq> m)"
  proof
    assume a: "opt_id x \<notin> set (map opt_id (filter (\<lambda>opt. votesFor rem nbs (opt_id opt) = m) rem))"
    show "votesFor rem nbs (opt_id x) \<noteq> m"
    proof
      assume "votesFor rem nbs (opt_id x) = m"
      with x have "opt_id x \<in> set (map opt_id (filter (\<lambda>opt. votesFor rem nbs (opt_id opt) = m) rem))"
        by auto
      with a show False by simp
    qed
  next
    assume a: "votesFor rem nbs (opt_id x) \<noteq> m"
    show "opt_id x \<notin> set (map opt_id (filter (\<lambda>opt. votesFor rem nbs (opt_id opt) = m) rem))"
    proof
      assume "opt_id x \<in> set (map opt_id (filter (\<lambda>opt. votesFor rem nbs (opt_id opt) = m) rem))"
      then have "\<exists>y \<in> set (filter (\<lambda>opt. votesFor rem nbs (opt_id opt) = m) rem).
                 opt_id x = opt_id y"
        by (simp add: image_iff)
      then obtain y where "y \<in> set (filter (\<lambda>opt. votesFor rem nbs (opt_id opt) = m) rem)"
        "opt_id x = opt_id y" by blast
      then have "votesFor rem nbs (opt_id x) = m" by simp
      with a show False by simp
    qed
  qed
qed

lemma round_irv_sem:
  assumes "1 < length rem"
  shows "round_irv totalV threshold nbs rnds rem =
     (case find (\<lambda>opt. threshold \<le> votesFor rem nbs (opt_id opt)) rem of
        Some mw \<Rightarrow>
          Inl \<lparr>rounds = rnds @
                 [\<lparr>round_no = length rnds + 1, voteCounts = countVotes rem nbs,
                   percentages = calcPercentages totalV (countVotes rem nbs) rem,
                   eliminated = None, eliminatedMultiple = None,
                   remaining = map opt_id rem,
                   majorityWinner = Some (opt_id mw), round_tie = False\<rparr>],
               winner = Some mw, tie = False, tiedOptions = None,
               totalVotes = Some totalV, majorityThreshold = Some threshold, error = None\<rparr>
      | None \<Rightarrow>
          if \<forall>opt \<in> set rem. votesFor rem nbs (opt_id opt) = minVote rem nbs then
            Inl \<lparr>rounds = rnds @
                   [\<lparr>round_no = length rnds + 1, voteCounts = countVotes rem nbs,
                     percentages = calcPercentages totalV (countVotes rem nbs) rem,
                     eliminated = None, eliminatedMultiple = None,
                     remaining = map opt_id rem,
                     majorityWinner = None, round_tie = True\<rparr>],
                 winner = None, tie = True, tiedOptions = Some rem,
                 totalVotes = Some totalV, majorityThreshold = Some threshold, error = None\<rparr>
          else
            Inr (rnds @
                   [\<lparr>round_no = length rnds + 1, voteCounts = countVotes rem nbs,
                     percentages = calcPercentages totalV (countVotes rem nbs) rem,
                     eliminated =
                       (if length (filter (\<lambda>opt. votesFor rem nbs (opt_id opt) = minVote rem nbs) rem) = 1
                        then js_index (filter (\<lambda>opt. votesFor rem nbs (opt_id opt) = minVote rem nbs) rem) 0
                        else None),
                     eliminatedMultiple =
                       (if length (filter (\<lambda>opt. votesFor rem nbs (opt_id opt) = minVote rem nbs) rem) > 1
                        then Some (filter (\<lambda>opt. votesFor rem nbs (opt_id opt) = minVote rem nbs) rem)
                        else None),
                     remaining = map opt_id rem,
                     majorityWinner = None, round_tie = False\<rparr>],
                 filter (\<lambda>opt. votesFor rem nbs (opt_id opt) \<noteq> minVote rem nbs) rem))"
proof -
  from assms have ne: "rem \<noteq> []" by auto
  note m = minVotes_minVote [OF ne, of nbs]
  show ?thesis
  proof (cases "\<forall>opt \<in> set rem. votesFor rem nbs (opt_id opt) = minVote rem nbs")
    case True
    with assms show ?thesis
      unfolding round_irv_def Let_def m find_majority allSame_iff filter_min elim_filter
      by (simp split: option.split)
  next
    case False
    then have "filter (\<lambda>opt. votesFor rem nbs (opt_id opt) \<noteq> minVote rem nbs) rem \<noteq> []"
      by (auto simp: filter_empty_conv)
    with False assms show ?thesis
      unfolding round_irv_def Let_def m find_majority allSame_iff filter_min elim_filter
      by (simp split: option.split)
  qed
qed

lemma round_p7_sem:
  assumes "1 < length rem"
  shows "round_p7 totalV threshold nbs rnds rem =
     (case (if length rem > 2
            then find (\<lambda>opt. threshold \<le> votesFor rem nbs (opt_id opt)) rem else None) of
        Some mw \<Rightarrow>
          Return \<lparr>rounds = rnds @
                 [\<lparr>round_no = length rnds + 1, voteCounts = countVotes rem nbs,
                   percentages = calcPercentages totalV (countVotes rem nbs) rem,
                   eliminated = None, eliminatedMultiple = None,
                   remaining = map opt_id rem,
                   majorityWinner = Some (opt_id mw), round_tie = False\<rparr>],
               winner = Some mw, tie = False, tiedOptions = None,
               totalVotes = Some totalV, majorityThreshold = Some threshold, error = None\<rparr>
      | None \<Rightarrow>
          if length rem = 2 then
            (if js_index (obj_values (countVotes rem nbs)) 0 =
                js_index (obj_values (countVotes rem nbs)) 1 then
               Return \<lparr>rounds = rnds @
                      [\<lparr>round_no = length rnds + 1, voteCounts = countVotes rem nbs,
                        percentages = calcPercentages totalV (countVotes rem nbs) rem,
                        eliminated = None, eliminatedMultiple = None,
                        remaining = map opt_id rem,
                        majorityWinner = None, round_tie = True\<rparr>],
                    winner = None, tie = True, tiedOptions = Some rem,
                    totalVotes = Some totalV, majorityThreshold = Some threshold,
                    error = None\<rparr>
             else
               (case find (\<lambda>opt. votesFor rem nbs (opt_id opt) = minVote rem nbs) rem of
                  None \<Rightarrow> Throw TypeError
                | Some eliminatedOption \<Rightarrow>
                    Return \<lparr>rounds = rnds @
                           [\<lparr>round_no = length rnds + 1, voteCounts = countVotes rem nbs,
                             percentages = calcPercentages totalV (countVotes rem nbs) rem,
                             eliminated = Some eliminatedOption, eliminatedMultiple = None,
                             remaining = map opt_id rem,
                             majorityWinner = None, round_tie = False\<rparr>],
                         winner = find (\<lambda>opt. opt_id opt \<noteq> opt_id eliminatedOption) rem,
                         tie = False, tiedOptions = None,
                         totalVotes = Some totalV, majorityThreshold = Some threshold,
                         error = None\<rparr>))
          else if \<forall>opt \<in> set rem. votesFor rem nbs (opt_id opt) = minVote rem nbs then
            Continue
              (rnds @
                [\<lparr>round_no = length rnds + 1, voteCounts = countVotes rem nbs,
                  percentages = calcPercentages totalV (countVotes rem nbs) rem,
                  eliminated =
                    Some (fold (\<lambda>current lowest.
                                  if opt_id current < opt_id lowest then current else lowest)
                            (tl rem) (hd rem)),
                  eliminatedMultiple = None,
                  remaining = map opt_id rem,
                  majorityWinner = None, round_tie = False\<rparr>])
              (filter (\<lambda>opt. opt_id opt \<noteq>
                   opt_id (fold (\<lambda>current lowest.
                                  if opt_id current < opt_id lowest then current else lowest)
                            (tl rem) (hd rem))) rem)
          else
            Continue
              (rnds @
                   [\<lparr>round_no = length rnds + 1, voteCounts = countVotes rem nbs,
                     percentages = calcPercentages totalV (countVotes rem nbs) rem,
                     eliminated =
                       (if length (filter (\<lambda>opt. votesFor rem nbs (opt_id opt) = minVote rem nbs) rem) = 1
                        then js_index (filter (\<lambda>opt. votesFor rem nbs (opt_id opt) = minVote rem nbs) rem) 0
                        else None),
                     eliminatedMultiple =
                       (if length (filter (\<lambda>opt. votesFor rem nbs (opt_id opt) = minVote rem nbs) rem) > 1
                        then Some (filter (\<lambda>opt. votesFor rem nbs (opt_id opt) = minVote rem nbs) rem)
                        else None),
                     remaining = map opt_id rem,
                     majorityWinner = None, round_tie = False\<rparr>])
              (filter (\<lambda>opt. votesFor rem nbs (opt_id opt) \<noteq> minVote rem nbs) rem))"
proof -
  from assms have ne: "rem \<noteq> []" by auto
  note m = minVotes_minVote [OF ne, of nbs]
  let ?E = "filter (\<lambda>opt. votesFor rem nbs (opt_id opt) = minVote rem nbs) rem"
  from minVote_attained [OF ne, of nbs] have "?E \<noteq> []" by (auto simp: filter_empty_conv)
  then obtain m0 ms where E: "?E = m0 # ms" by (cases ?E) auto
  show ?thesis
  proof (cases "length rem = 2")
    case True
    then show ?thesis
      unfolding round_p7_def Let_def m find_majority find_min allSame_iff filter_min elim_filter
      by simp
  next
    case n2: False
    with assms have g2: "2 < length rem" by simp
    show ?thesis
    proof (cases "\<forall>opt \<in> set rem. votesFor rem nbs (opt_id opt) = minVote rem nbs")
      case True
      then have "?E = rem" by simp
      with E have "rem = m0 # ms" by simp
      with True g2 E show ?thesis
        unfolding round_p7_def Let_def m find_majority find_min allSame_iff filter_min elim_filter
        by (simp split: option.split)
    next
      case False
      then have "filter (\<lambda>opt. votesFor rem nbs (opt_id opt) \<noteq> minVote rem nbs) rem \<noteq> []"
        by (auto simp: filter_empty_conv)
      moreover have nall: "(\<forall>opt \<in> set rem. votesFor rem nbs (opt_id opt) = minVote rem nbs) = False"
        using False by blast
      moreover have caseE: "\<And>f. (case ?E of [] \<Rightarrow> Throw TypeError | m # ms \<Rightarrow> f m) = f m0"
        by (simp add: E)
      moreover have sing: "(if 1 < length ?E then ?E else [m0]) = ?E"
        by (simp add: E single_or_all)
      ultimately show ?thesis using g2 n2
        unfolding round_p7_def Let_def m find_majority find_min allSame_iff filter_min nall caseE
          sing elim_filter
        by (simp split: option.split)
    qed
  qed
qed

lemma round_irv_no_error:
  assumes "1 < length rem" "round_irv totalV threshold nbs rnds rem = Inl res"
  shows "error res = None"
  using assms(2) unfolding round_irv_sem [OF assms(1)]
  by (auto split: option.splits if_splits)

lemma round_p7_no_error:
  assumes "1 < length rem" "round_p7 totalV threshold nbs rnds rem = Return res"
  shows "error res = None"
  using assms(2) unfolding round_p7_sem [OF assms(1)]
  by (auto split: option.splits if_splits)

lemma countVotes_pair:
  assumes "opt_id a \<noteq> opt_id b"
  shows "countVotes [a, b] nbs =
         (if opt_id a < opt_id b
          then [(opt_id a, votesFor [a, b] nbs (opt_id a)), (opt_id b, votesFor [a, b] nbs (opt_id b))]
          else [(opt_id b, votesFor [a, b] nbs (opt_id b)), (opt_id a, votesFor [a, b] nbs (opt_id a))])"
proof (rule sorted_alist_eqI)
  show "sorted_wrt (<) (map fst (countVotes [a, b] nbs))" by (rule countVotes_sorted)
  show "sorted_wrt (<) (map fst (if opt_id a < opt_id b
          then [(opt_id a, votesFor [a, b] nbs (opt_id a)), (opt_id b, votesFor [a, b] nbs (opt_id b))]
          else [(opt_id b, votesFor [a, b] nbs (opt_id b)), (opt_id a, votesFor [a, b] nbs (opt_id a))]))"
    using assms by auto
  show "map_of (countVotes [a, b] nbs) = map_of (if opt_id a < opt_id b
          then [(opt_id a, votesFor [a, b] nbs (opt_id a)), (opt_id b, votesFor [a, b] nbs (opt_id b))]
          else [(opt_id b, votesFor [a, b] nbs (opt_id b)), (opt_id a, votesFor [a, b] nbs (opt_id a))])"
  proof
    fix k
    have "map_of (countVotes [a, b] nbs) k = obj_get (countVotes [a, b] nbs) k"
      by (simp add: obj_get_def)
    then show "map_of (countVotes [a, b] nbs) k = map_of (if opt_id a < opt_id b
          then [(opt_id a, votesFor [a, b] nbs (opt_id a)), (opt_id b, votesFor [a, b] nbs (opt_id b))]
          else [(opt_id b, votesFor [a, b] nbs (opt_id b)), (opt_id a, votesFor [a, b] nbs (opt_id a))]) k"
      using assms by (simp add: countVotes_get votesFor_def)
  qed
qed






lemma find_unique_perm:
  assumes "set xs = set ys" "\<forall>x \<in> set xs. \<forall>y \<in> set xs. P x \<longrightarrow> P y \<longrightarrow> x = y"
  shows "find P xs = find P ys"
proof (cases "find P xs")
  case None
  then have "\<not> (\<exists>x. x \<in> set ys \<and> P x)" using assms(1) by (simp add: find_None_iff)
  then have "find P ys = None" by (simp add: find_None_iff)
  with None show ?thesis by simp
next
  case (Some x)
  then have x: "x \<in> set xs" "P x" by (simp_all add: find_Some_in)
  then have "find P ys \<noteq> None" using assms(1) by (auto simp: find_None_iff)
  then obtain y where y: "find P ys = Some y" by auto
  then have "y \<in> set ys" "P y" by (simp_all add: find_Some_in)
  with x assms have "x = y" by blast
  with Some y show ?thesis by simp
qed

lemma count_ge_votes:
  "count_ge (countVotes rem nbs) k t \<longleftrightarrow> k \<in> opt_id ` set rem \<and> t \<le> votesFor rem nbs k"
  by (auto simp: count_ge_def countVotes_get votesFor_def)

lemma majority_id_unique:
  assumes "count_ge (countVotes rem nbs) i (length nbs div 2 + 1)"
    and "count_ge (countVotes rem nbs) j (length nbs div 2 + 1)"
  shows "i = j"
  using assms majority_unique [of nbs rem i j] by (simp add: count_ge_votes)

lemma played_majority_unique:
  assumes "played_on threshold (map normalizeBallot ballots) rem r"
    and "count_ge (voteCounts r) i (length ballots div 2 + 1)"
    and "count_ge (voteCounts r) j (length ballots div 2 + 1)"
  shows "i = j"
  using assms majority_id_unique [of rem "map normalizeBallot ballots" i j]
  by (simp add: played_on_def)

lemma rounds_played_irv:
  "\<forall>r \<in> set (rounds (calculateIRV options ballots)).
     \<exists>rem. played_on (length ballots div 2 + 1) (map normalizeBallot ballots) rem r"
proof (cases "options = [] \<or> ballots = []")
  case True
  then have "rounds (calculateIRV options ballots) = []" by (auto simp: calculateIRV_def)
  then show ?thesis by simp
next
  case False
  then have "calculateIRV options ballots =
    calculateIRV_loop (length ballots) (length ballots div 2 + 1) (map normalizeBallot ballots) []
      options"
    by (simp add: calculateIRV_nonempty)
  moreover have "\<forall>r \<in> set (rounds (calculateIRV_loop (length ballots) (length ballots div 2 + 1)
      (map normalizeBallot ballots) [] options)).
     \<exists>rem. played_on (length ballots div 2 + 1) (map normalizeBallot ballots) rem r"
    by (rule loop_irv_played) simp
  ultimately show ?thesis by simp
qed

lemma rounds_played_p7:
  "\<exists>res. calculateIRV_p7 options ballots = Inr res \<and>
     (\<forall>r \<in> set (rounds res).
        \<exists>rem. played_on (length ballots div 2 + 1) (map normalizeBallot ballots) rem r)"
proof (cases "options = [] \<or> ballots = []")
  case True
  then have "\<exists>res. calculateIRV_p7 options ballots = Inr res \<and> rounds res = []"
    by (auto simp: calculateIRV_p7_def)
  then obtain res where "calculateIRV_p7 options ballots = Inr res" "rounds res = []" by blast
  then show ?thesis by simp
next
  case False
  then have e: "calculateIRV_p7 options ballots =
    calculateIRV_p7_loop (length ballots) (length ballots div 2 + 1) (map normalizeBallot ballots) []
      options"
    by (simp add: calculateIRV_p7_nonempty)
  have "\<exists>res. calculateIRV_p7_loop (length ballots) (length ballots div 2 + 1)
           (map normalizeBallot ballots) [] options = Inr res \<and>
           totalVotes res = Some (length ballots) \<and>
           majorityThreshold res = Some (length ballots div 2 + 1) \<and>
           (\<forall>r \<in> set (rounds res).
              \<exists>rem. played_on (length ballots div 2 + 1) (map normalizeBallot ballots) rem r)"
    by (rule loop_p7_played) simp
  then obtain res where "calculateIRV_p7_loop (length ballots) (length ballots div 2 + 1)
           (map normalizeBallot ballots) [] options = Inr res"
    and "\<forall>r \<in> set (rounds res).
              \<exists>rem. played_on (length ballots div 2 + 1) (map normalizeBallot ballots) rem r"
    by blast
  then show ?thesis unfolding e by blast
qed

lemma majority_scan:
  assumes d: "distinct (map opt_id rem)" and p: "mset rem' = mset rem"
  shows "find (\<lambda>opt. count_ge (countVotes rem nbs) (opt_id opt) (length nbs div 2 + 1)) rem' =
         find (\<lambda>opt. count_ge (countVotes rem nbs) (opt_id opt) (length nbs div 2 + 1)) rem"
proof (rule find_unique_perm)
  show "set rem' = set rem" using p by (rule mset_eq_setD)
  show "\<forall>x \<in> set rem'. \<forall>y \<in> set rem'.
          count_ge (countVotes rem nbs) (opt_id x) (length nbs div 2 + 1) \<longrightarrow>
          count_ge (countVotes rem nbs) (opt_id y) (length nbs div 2 + 1) \<longrightarrow> x = y"
  proof (intro ballI impI)
    fix x y
    assume x: "x \<in> set rem'" and y: "y \<in> set rem'"
      and cx: "count_ge (countVotes rem nbs) (opt_id x) (length nbs div 2 + 1)"
      and cy: "count_ge (countVotes rem nbs) (opt_id y) (length nbs div 2 + 1)"
    from cx cy have e: "opt_id x = opt_id y" by (rule majority_id_unique)
    have s: "set rem' = set rem" using p by (rule mset_eq_setD)
    from x have xr: "x \<in> set rem" unfolding s .
    from y have yr: "y \<in> set rem" unfolding s .
    from d have "inj_on opt_id (set rem)" by (simp add: distinct_map)
    then show "x = y" using e xr yr by (rule inj_onD)
  qed
qed

lemma played_majority_unique':
  assumes "\<exists>rem. played_on threshold (map normalizeBallot ballots) rem r"
  shows "\<forall>i \<in> set (remaining r). \<forall>j \<in> set (remaining r).
           count_ge (voteCounts r) i (length ballots div 2 + 1) \<longrightarrow>
           count_ge (voteCounts r) j (length ballots div 2 + 1) \<longrightarrow> i = j"
proof (intro ballI impI)
  fix i j
  assume a: "count_ge (voteCounts r) i (length ballots div 2 + 1)"
    and b: "count_ge (voteCounts r) j (length ballots div 2 + 1)"
  from assms obtain rem where "played_on threshold (map normalizeBallot ballots) rem r" ..
  then show "i = j" using a b by (rule played_majority_unique)
qed

section \<open>The two forms of a ranking\<close>

lemma insort_key_map:
  assumes "\<And>x. g (f x) = h x"
  shows "map f (insort_key h x xs) = insort_key g (f x) (map f xs)"
  by (induction xs) (simp_all add: assms)

lemma sort_key_map:
  assumes "\<And>x. g (f x) = h x"
  shows "map f (sort_key h xs) = sort_key g (map f xs)"
  by (induction xs) (simp_all add: insort_key_map [where g = g and h = h] assms)

lemma normalizeBallot_alt:
  "normalizeBallot b =
   \<lparr>nb_id = ballot_id b,
    nb_rankings = sort_key n_rank
      (map (\<lambda>r. \<lparr>n_pollOptionId = resolveOptionId r, n_rank = rank r\<rparr>) (rankings b))\<rparr>"
  unfolding normalizeBallot_def
  by (subst sort_key_map [where g = n_rank and h = rank]) simp_all

lemma normalized_sorted: "sorted (map n_rank (nb_rankings (normalizeBallot b)))"
  by (simp add: normalizeBallot_alt)

lemma same_ranking_resolve:
  assumes "same_ranking r r'"
    and "pollOptionId r \<noteq> Some 0" "case pollOption r of None \<Rightarrow> True | Some p \<Rightarrow> opt_id p \<noteq> 0"
  shows "resolveOptionId r' = resolveOptionId r \<and> rank r' = rank r"
  using assms
  by (auto simp: same_ranking_def nested_form_of_def resolveOptionId_def split: option.splits)

lemma same_ballot_normalize:
  assumes "same_ballot b b'"
    and "list_all (\<lambda>r. pollOptionId r \<noteq> Some 0 \<and>
                        (case pollOption r of None \<Rightarrow> True | Some p \<Rightarrow> opt_id p \<noteq> 0)) (rankings b)"
  shows "normalizeBallot b' = normalizeBallot b"
proof -
  from assms(1) have l: "list_all2 same_ranking (rankings b) (rankings b')"
    by (simp add: same_ballot_def)
  have "list_all2 (\<lambda>r r'. resolveOptionId r' = resolveOptionId r \<and> rank r' = rank r)
                     (rankings b) (rankings b')"
  proof (rule list.rel_mono_strong [OF l])
    fix r r'
    assume "r \<in> set (rankings b)" "same_ranking r r'"
    with assms(2) show "resolveOptionId r' = resolveOptionId r \<and> rank r' = rank r"
      by (intro same_ranking_resolve) (simp_all add: list_all_iff)
  qed
  then have "map (\<lambda>r. \<lparr>n_pollOptionId = resolveOptionId r, n_rank = rank r\<rparr>) (rankings b') =
             map (\<lambda>r. \<lparr>n_pollOptionId = resolveOptionId r, n_rank = rank r\<rparr>) (rankings b)"
    by (induction rule: list_all2_induct) simp_all
  with assms(1) show ?thesis by (simp add: normalizeBallot_alt same_ballot_def)
qed

lemma same_ballots_normalize:
  assumes "list_all2 same_ballot ballots ballots'" "ids_truthy ballots"
  shows "map normalizeBallot ballots' = map normalizeBallot ballots"
  using assms
  by (induction rule: list_all2_induct) (simp_all add: ids_truthy_def same_ballot_normalize)

text \<open>
  On ballots that name no option by the id 0, the form of a ranking changes neither the
  normalised ballots nor the result, and the normalised rankings are in ascending rank.
\<close>

lemma ranking_forms_agree:
  assumes "list_all2 same_ballot ballots ballots'" "ids_truthy ballots"
  shows "map normalizeBallot ballots' = map normalizeBallot ballots \<and>
         calculateIRV options ballots' = calculateIRV options ballots \<and>
         calculateIRV_p7 options ballots' = calculateIRV_p7 options ballots \<and>
         (\<forall>b \<in> set ballots. sorted (map n_rank (nb_rankings (normalizeBallot b))))"
proof -
  from assms have n: "map normalizeBallot ballots' = map normalizeBallot ballots"
    by (rule same_ballots_normalize)
  from assms(1) have e: "(ballots' = []) = (ballots = [])" by (auto simp: list_all2_Nil list_all2_Nil2)
  from n e show ?thesis
    by (simp add: calculateIRV_def calculateIRV_p7_def normalized_sorted)
qed

lemma ranking_forms_agree_example:
  "list_all2 same_ballot [ranked 1 [1, 2]] [ballot_nested] \<and> ids_truthy [ranked 1 [1, 2]] \<and>
   calculateIRV [O1, O2] [ballot_nested] = calculateIRV [O1, O2] [ranked 1 [1, 2]] \<and>
   calculateIRV_p7 [O1, O2] [ballot_nested] = calculateIRV_p7 [O1, O2] [ranked 1 [1, 2]]"
proof -
  have a: "list_all2 same_ballot [ranked 1 [1, 2]] [ballot_nested]" by code_simp
  have b: "ids_truthy [ranked 1 [1, 2]]" by code_simp
  from ranking_forms_agree [OF a b, of "[O1, O2]"] a b show ?thesis by simp
qed

section \<open>Reordering the ballots\<close>

lemma votesFor_mset: "mset nbs' = mset nbs \<Longrightarrow> votesFor rem nbs' k = votesFor rem nbs k"
proof -
  assume m: "mset nbs' = mset nbs"
  have c: "\<And>xs. length (filter (\<lambda>b. firstChoice rem (nb_rankings b) = Some k) xs) =
        size (filter_mset (\<lambda>b. firstChoice rem (nb_rankings b) = Some k) (mset xs))"
    by (metis mset_filter size_mset)
  show ?thesis unfolding votesFor_def c m ..
qed

lemma countVotes_eqI:
  assumes "opt_id ` set rem' = opt_id ` set rem"
    and "\<And>k. votesFor rem' nbs' k = votesFor rem nbs k"
  shows "countVotes rem' nbs' = countVotes rem nbs"
proof (rule sorted_alist_eqI)
  show "sorted_wrt (<) (map fst (countVotes rem' nbs'))" by (rule countVotes_sorted)
  show "sorted_wrt (<) (map fst (countVotes rem nbs))" by (rule countVotes_sorted)
  show "map_of (countVotes rem' nbs') = map_of (countVotes rem nbs)"
  proof
    fix k
    have "obj_get (countVotes rem' nbs') k = obj_get (countVotes rem nbs) k"
      using assms(1) assms(2) [of k] by (simp add: countVotes_get votesFor_def)
    then show "map_of (countVotes rem' nbs') k = map_of (countVotes rem nbs) k"
      by (simp add: obj_get_def)
  qed
qed

lemma countVotes_mset:
  assumes "mset nbs' = mset nbs"
  shows "countVotes rem nbs' = countVotes rem nbs"
proof (rule countVotes_eqI)
  show "opt_id ` set rem = opt_id ` set rem" ..
  show "votesFor rem nbs' k = votesFor rem nbs k" for k
    using assms by (rule votesFor_mset)
qed

lemma round_irv_mset:
  assumes "mset nbs' = mset nbs"
  shows "round_irv totalV threshold nbs' rnds rem = round_irv totalV threshold nbs rnds rem"
  unfolding round_irv_def countVotes_mset [OF assms] ..

lemma round_p7_mset:
  assumes "mset nbs' = mset nbs"
  shows "round_p7 totalV threshold nbs' rnds rem = round_p7 totalV threshold nbs rnds rem"
  unfolding round_p7_def countVotes_mset [OF assms] ..

lemma loop_irv_mset:
  assumes "mset nbs' = mset nbs"
  shows "calculateIRV_loop totalV threshold nbs' rnds rem =
         calculateIRV_loop totalV threshold nbs rnds rem"
  using assms
proof (induction totalV threshold nbs rnds rem rule: calculateIRV_loop.induct)
  case (1 totalV threshold nbs rnds rem)
  show ?case
  proof (cases "1 < length rem")
    case False
    then show ?thesis
      by (simp add: calculateIRV_loop.simps [of _ _ _ _ rem])
  next
    case True
    show ?thesis
    proof (cases "round_irv totalV threshold nbs rnds rem")
      case (Inl res)
      with True "1.prems" show ?thesis
        by (simp add: calculateIRV_loop.simps [of _ _ _ _ rem] round_irv_mset [OF "1.prems"])
    next
      case (Inr st)
      obtain rnds2 rem2 where st: "st = (rnds2, rem2)" by (cases st)
      from "1.IH" [OF True Inr [unfolded st] refl "1.prems"] True Inr st "1.prems" show ?thesis
        by (simp add: calculateIRV_loop.simps [of _ _ _ _ rem] round_irv_mset [OF "1.prems"])
    qed
  qed
qed

lemma loop_p7_mset:
  assumes "mset nbs' = mset nbs"
  shows "calculateIRV_p7_loop totalV threshold nbs' rnds rem =
         calculateIRV_p7_loop totalV threshold nbs rnds rem"
  using assms
proof (induction totalV threshold nbs rnds rem rule: calculateIRV_p7_loop.induct)
  case (1 totalV threshold nbs rnds rem)
  show ?case
  proof (cases "1 < length rem")
    case False
    then show ?thesis
      by (simp add: calculateIRV_p7_loop.simps [of _ _ _ _ rem])
  next
    case True
    show ?thesis
    proof (cases "round_p7 totalV threshold nbs rnds rem")
      case (Return res)
      with True "1.prems" show ?thesis
        by (simp add: calculateIRV_p7_loop.simps [of _ _ _ _ rem] round_p7_mset [OF "1.prems"])
    next
      case (Continue rnds2 rem2)
      from "1.IH" [OF True Continue "1.prems"] True Continue "1.prems" show ?thesis
        by (simp add: calculateIRV_p7_loop.simps [of _ _ _ _ rem] round_p7_mset [OF "1.prems"])
    next
      case (Throw e)
      with True "1.prems" show ?thesis
        by (simp add: calculateIRV_p7_loop.simps [of _ _ _ _ rem] round_p7_mset [OF "1.prems"])
    qed
  qed
qed

lemma calculateIRV_ballots_mset:
  assumes "mset ballots' = mset ballots"
  shows "calculateIRV options ballots' = calculateIRV options ballots"
    and "calculateIRV_p7 options ballots' = calculateIRV_p7 options ballots"
proof -
  from assms have n: "mset (map normalizeBallot ballots') = mset (map normalizeBallot ballots)"
    by (metis mset_map)
  from assms have l: "length ballots' = length ballots" by (rule mset_eq_length)
  then have e: "(ballots' = []) = (ballots = [])" by auto
  show "calculateIRV options ballots' = calculateIRV options ballots"
    by (simp add: calculateIRV_def Let_def e l loop_irv_mset [OF n])
  show "calculateIRV_p7 options ballots' = calculateIRV_p7 options ballots"
    by (simp add: calculateIRV_p7_def Let_def e l loop_p7_mset [OF n])
qed

section \<open>Reordering the options\<close>

lemma firstChoice_set:
  assumes "set rem' = set rem"
  shows "firstChoice rem' rs = firstChoice rem rs"
  by (induction rs) (simp_all add: list_ex_iff assms split: option.splits)

lemma votesFor_set:
  assumes "set rem' = set rem"
  shows "votesFor rem' nbs k = votesFor rem nbs k"
  unfolding votesFor_def firstChoice_set [OF assms] ..

lemma countVotes_set:
  assumes "set rem' = set rem"
  shows "countVotes rem' nbs = countVotes rem nbs"
proof (rule countVotes_eqI)
  show "opt_id ` set rem' = opt_id ` set rem" by (simp only: assms)
  show "votesFor rem' nbs k = votesFor rem nbs k" for k
    using assms by (rule votesFor_set)
qed

lemma minVote_set:
  assumes "set rem' = set rem"
  shows "minVote rem' nbs = minVote rem nbs"
  unfolding minVote_def votesFor_set [OF assms] assms ..

lemma pct_fold_sorted:
  "sorted_wrt (<) (map fst acc) \<Longrightarrow>
   sorted_wrt (<) (map fst (fold (\<lambda>opt pc. case obj_get vc (opt_id opt) of None \<Rightarrow> pc
                                     | Some c \<Rightarrow> obj_set (opt_id opt) (f c) pc) rem acc))"
  by (induction rem arbitrary: acc) (simp_all add: sorted_obj_set split: option.splits)

lemma pct_fold_map_of:
  "map_of (fold (\<lambda>opt pc. case obj_get vc (opt_id opt) of None \<Rightarrow> pc
                                     | Some c \<Rightarrow> obj_set (opt_id opt) (f c) pc) rem acc) k =
   (if k \<in> opt_id ` set rem \<and> obj_get vc k \<noteq> None then map_option f (obj_get vc k)
    else map_of acc k)"
  by (induction rem arbitrary: acc) (auto simp: map_of_obj_set split: option.splits)

lemma calcPercentages_set:
  assumes "set rem' = set rem"
  shows "calcPercentages totalV vc rem' = calcPercentages totalV vc rem"
proof (rule sorted_alist_eqI)
  show "sorted_wrt (<) (map fst (calcPercentages totalV vc rem'))"
    unfolding calcPercentages_def by (rule pct_fold_sorted) simp
  show "sorted_wrt (<) (map fst (calcPercentages totalV vc rem))"
    unfolding calcPercentages_def by (rule pct_fold_sorted) simp
  show "map_of (calcPercentages totalV vc rem') = map_of (calcPercentages totalV vc rem)"
    unfolding calcPercentages_def by (rule ext) (simp only: pct_fold_map_of assms)
qed

lemma short_perm_eq:
  assumes "mset xs' = mset xs" "\<not> 1 < length xs"
  shows "xs' = xs"
proof (cases xs)
  case Nil
  with assms show ?thesis by simp
next
  case (Cons x ys)
  with assms(2) have "xs = [x]" by simp
  with assms(1) show ?thesis by (simp add: mset_single_iff)
qed

lemma single_perm_eq:
  assumes "mset xs' = mset xs" "length xs = 1"
  shows "xs' = xs"
  using assms by (intro short_perm_eq) simp_all

lemma inj_ids: "distinct (map opt_id rem) \<Longrightarrow> x \<in> set rem \<Longrightarrow> y \<in> set rem \<Longrightarrow>
  opt_id x = opt_id y \<Longrightarrow> x = y"
  by (auto simp: distinct_map inj_on_def)

lemma find_majority_perm:
  assumes "mset rem' = mset rem" "distinct (map opt_id rem)"
  shows "find (\<lambda>opt. length nbs div 2 + 1 \<le> votesFor rem nbs (opt_id opt)) rem' =
         find (\<lambda>opt. length nbs div 2 + 1 \<le> votesFor rem nbs (opt_id opt)) rem"
proof (rule find_unique_perm)
  show "set rem' = set rem" using assms(1) by (rule mset_eq_setD)
  then show "\<forall>x \<in> set rem'. \<forall>y \<in> set rem'.
          length nbs div 2 + 1 \<le> votesFor rem nbs (opt_id x) \<longrightarrow>
          length nbs div 2 + 1 \<le> votesFor rem nbs (opt_id y) \<longrightarrow> x = y"
    using majority_unique [of nbs rem] inj_ids [OF assms(2)] by blast
qed

lemma lowest_le:
  "\<forall>x \<in> set (m # ms).
     opt_id (fold (\<lambda>current lowest. if opt_id current < opt_id lowest then current else lowest) ms m)
     \<le> opt_id x"
proof (induction ms arbitrary: m)
  case Nil
  show ?case by simp
next
  case (Cons a ms)
  from Cons [of "if opt_id a < opt_id m then a else m"] show ?case
    by (auto split: if_splits)
qed

lemma lowest_perm:
  assumes "mset rem' = mset rem" "distinct (map opt_id rem)" "rem \<noteq> []"
  shows "fold (\<lambda>current lowest. if opt_id current < opt_id lowest then current else lowest)
           (tl rem') (hd rem') =
         fold (\<lambda>current lowest. if opt_id current < opt_id lowest then current else lowest)
           (tl rem) (hd rem)"
proof -
  let ?f = "\<lambda>current lowest. if opt_id current < opt_id lowest then current else lowest"
  from assms have ne: "rem' \<noteq> []" by auto
  have s: "set rem' = set rem" using assms(1) by (rule mset_eq_setD)
  have a: "fold ?f (tl rem) (hd rem) \<in> set rem" "\<forall>x \<in> set rem. opt_id (fold ?f (tl rem) (hd rem)) \<le> opt_id x"
    using lowest_in_set [of "tl rem" "hd rem"] lowest_le [of "hd rem" "tl rem"] assms(3) by simp_all
  have b: "fold ?f (tl rem') (hd rem') \<in> set rem" "\<forall>x \<in> set rem. opt_id (fold ?f (tl rem') (hd rem')) \<le> opt_id x"
    using lowest_in_set [of "tl rem'" "hd rem'"] lowest_le [of "hd rem'" "tl rem'"] ne s by simp_all
  from a b have "opt_id (fold ?f (tl rem') (hd rem')) = opt_id (fold ?f (tl rem) (hd rem))"
    by (meson le_antisym)
  with a b show ?thesis using inj_ids [OF assms(2)] by blast
qed

lemma elim_fields_perm:
  assumes "mset E' = mset E"
  shows "(if length E' = 1 then js_index E' 0 else None) = (if length E = 1 then js_index E 0 else None)"
    and "map_option mset (if length E' > 1 then Some E' else None) =
         map_option mset (if length E > 1 then Some E else None)"
proof -
  from assms have l: "length E' = length E" by (rule mset_eq_length)
  show "(if length E' = 1 then js_index E' 0 else None) = (if length E = 1 then js_index E 0 else None)"
  proof (cases "length E = 1")
    case True
    with assms have "E' = E" by (rule single_perm_eq)
    then show ?thesis by simp
  next
    case False
    with l show ?thesis by simp
  qed
  show "map_option mset (if length E' > 1 then Some E' else None) =
         map_option mset (if length E > 1 then Some E else None)"
    using l assms by simp
qed

lemma round_irv_perm:
  assumes p: "mset rem' = mset rem" and d: "distinct (map opt_id rem)"
    and r: "list_all2 same_round rnds rnds'" and l: "1 < length rem"
    and t: "threshold = length nbs div 2 + 1"
  shows "case (round_irv totalV threshold nbs rnds rem, round_irv totalV threshold nbs rnds' rem') of
           (Inl res, Inl res') \<Rightarrow> same_outcome res res'
         | (Inr (rs, rm), Inr (rs', rm')) \<Rightarrow>
             list_all2 same_round rs rs' \<and> mset rm' = mset rm \<and> distinct (map opt_id rm)
         | _ \<Rightarrow> False"
proof -
  have s: "set rem' = set rem" using p by (rule mset_eq_setD)
  have l': "1 < length rem'" using l mset_eq_length [OF p] by simp
  have n: "length rnds' = length rnds" using r by (simp add: list_all2_lengthD)
  have ids: "mset (map opt_id rem') = mset (map opt_id rem)" using p by (metis mset_map)
  let ?V = "\<lambda>opt. votesFor rem nbs (opt_id opt)"
  let ?m = "minVote rem nbs"
  have E: "mset (filter (\<lambda>opt. ?V opt = ?m) rem') = mset (filter (\<lambda>opt. ?V opt = ?m) rem)"
    using p by (metis mset_filter)
  have K: "mset (filter (\<lambda>opt. ?V opt \<noteq> ?m) rem') = mset (filter (\<lambda>opt. ?V opt \<noteq> ?m) rem)"
    using p by (metis mset_filter)
  have dK: "distinct (map opt_id (filter (\<lambda>opt. ?V opt \<noteq> ?m) rem))"
    using d by (rule distinct_map_filter)
  note f = find_majority_perm [OF p d, of nbs]
  show ?thesis
    unfolding round_irv_sem [OF l] round_irv_sem [OF l'] votesFor_set [OF s] minVote_set [OF s]
      countVotes_set [OF s] calcPercentages_set [OF s] t f s
    using r n ids E K dK elim_fields_perm [OF E]
    by (auto simp: same_outcome_def same_round_def list_all2_appendI p split: option.splits)
qed

lemma loop_irv_perm:
  assumes "mset rem' = mset rem" "distinct (map opt_id rem)" "list_all2 same_round rnds rnds'"
    and "threshold = length nbs div 2 + 1"
  shows "same_outcome (calculateIRV_loop totalV threshold nbs rnds rem)
           (calculateIRV_loop totalV threshold nbs rnds' rem')"
  using assms
proof (induction totalV threshold nbs rnds rem arbitrary: rnds' rem'
       rule: calculateIRV_loop.induct)
  case (1 totalV threshold nbs rnds rem)
  note p = "1.prems"(1) and d = "1.prems"(2) and r = "1.prems"(3) and t = "1.prems"(4)
  show ?case
  proof (cases "1 < length rem")
    case False
    with p have "rem' = rem" by (rule short_perm_eq)
    with False r show ?thesis
      by (simp add: calculateIRV_loop.simps [of _ _ _ _ rem] same_outcome_def)
  next
    case True
    then have l': "1 < length rem'" using mset_eq_length [OF p] by simp
    note step = round_irv_perm [OF p d r True t, of totalV]
    show ?thesis
    proof (cases "round_irv totalV threshold nbs rnds rem")
      case (Inl res)
      with step obtain res' where "round_irv totalV threshold nbs rnds' rem' = Inl res'"
        "same_outcome res res'"
        by (cases "round_irv totalV threshold nbs rnds' rem'") auto
      with Inl True l' show ?thesis
        by (simp add: calculateIRV_loop.simps [of _ _ _ _ rem]
              calculateIRV_loop.simps [of _ _ _ _ rem'])
    next
      case (Inr st)
      obtain rs rm where st: "st = (rs, rm)" by (cases st)
      with step Inr obtain rs' rm' where
        i': "round_irv totalV threshold nbs rnds' rem' = Inr (rs', rm')"
        and q: "list_all2 same_round rs rs'" "mset rm' = mset rm" "distinct (map opt_id rm)"
        by (cases "round_irv totalV threshold nbs rnds' rem'") auto
      from "1.IH" [OF True Inr [unfolded st] refl q(2) q(3) q(1) t] Inr st i' True l'
      show ?thesis
        by (simp add: calculateIRV_loop.simps [of _ _ _ _ rem]
              calculateIRV_loop.simps [of _ _ _ _ rem'])
    qed
  qed
qed

lemma two_options_unequal:
  assumes "rem = [a, b]" "opt_id a \<noteq> opt_id b"
    and "js_index (obj_values (countVotes rem nbs)) 0 \<noteq> js_index (obj_values (countVotes rem nbs)) 1"
  shows "votesFor rem nbs (opt_id a) \<noteq> votesFor rem nbs (opt_id b)"
  using assms by (auto simp: countVotes_pair obj_values_def js_index_def split: if_splits)

lemma round_p7_perm_two:
  assumes p: "mset rem' = mset rem" and d: "distinct (map opt_id rem)"
    and r: "list_all2 same_round rnds rnds'" and l: "length rem = 2"
  shows "case (round_p7 totalV threshold nbs rnds rem, round_p7 totalV threshold nbs rnds' rem') of
           (Return res, Return res') \<Rightarrow> same_outcome res res'
         | _ \<Rightarrow> False"
proof -
  have s: "set rem' = set rem" using p by (rule mset_eq_setD)
  have l': "length rem' = 2" using l mset_eq_length [OF p] by simp
  have l1: "1 < length rem" "1 < length rem'" using l l' by simp_all
  have n: "length rnds' = length rnds" using r by (simp add: list_all2_lengthD)
  have ids: "mset (map opt_id rem') = mset (map opt_id rem)" using p by (metis mset_map)
  let ?V = "\<lambda>opt. votesFor rem nbs (opt_id opt)"
  let ?m = "minVote rem nbs"
  from l obtain a b where ab: "rem = [a, b]"
    by (cases rem; cases "tl rem"; cases "tl (tl rem)") auto
  with d have dab: "opt_id a \<noteq> opt_id b" by simp
  show ?thesis
  proof (cases "js_index (obj_values (countVotes rem nbs)) 0 =
                js_index (obj_values (countVotes rem nbs)) 1")
    case True
    then show ?thesis
      unfolding round_p7_sem [OF l1(1)] round_p7_sem [OF l1(2)] votesFor_set [OF s]
        minVote_set [OF s] countVotes_set [OF s] calcPercentages_set [OF s]
      using r n ids l l'
      by (auto simp: same_outcome_def same_round_def list_all2_appendI p)
  next
    case False
    then have ne: "?V a \<noteq> ?V b" using two_options_unequal [OF ab dab] by simp
    have u: "\<forall>x \<in> set rem'. \<forall>y \<in> set rem'. ?V x = ?m \<longrightarrow> ?V y = ?m \<longrightarrow> x = y"
      using ne unfolding s ab by auto
    have f1: "find (\<lambda>opt. ?V opt = ?m) rem' = find (\<lambda>opt. ?V opt = ?m) rem"
      by (rule find_unique_perm [OF s u])
    have "rem \<noteq> []" using ab by simp
    from minVote_attained [OF this, of nbs] obtain x0 where "x0 \<in> set rem" "?V x0 = ?m"
      by blast
    then have "find (\<lambda>opt. ?V opt = ?m) rem \<noteq> None"
      unfolding find_None_iff by blast
    then obtain e where e: "find (\<lambda>opt. ?V opt = ?m) rem = Some e" by blast
    then have ein: "e \<in> set rem" by (simp add: find_Some_in)
    have u2: "\<forall>x \<in> set rem'. \<forall>y \<in> set rem'.
                opt_id x \<noteq> opt_id e \<longrightarrow> opt_id y \<noteq> opt_id e \<longrightarrow> x = y"
      using ein unfolding s ab by auto
    have f2: "find (\<lambda>opt. opt_id opt \<noteq> opt_id e) rem' = find (\<lambda>opt. opt_id opt \<noteq> opt_id e) rem"
      by (rule find_unique_perm [OF s u2])
    from False show ?thesis
      unfolding round_p7_sem [OF l1(1)] round_p7_sem [OF l1(2)] votesFor_set [OF s]
        minVote_set [OF s] countVotes_set [OF s] calcPercentages_set [OF s] f1 e
      using r n ids l l' f2
      by (auto simp: same_outcome_def same_round_def list_all2_appendI p)
  qed
qed

lemma round_p7_perm_more:
  assumes p: "mset rem' = mset rem" and d: "distinct (map opt_id rem)"
    and r: "list_all2 same_round rnds rnds'" and l: "2 < length rem"
    and t: "threshold = length nbs div 2 + 1"
  shows "case (round_p7 totalV threshold nbs rnds rem, round_p7 totalV threshold nbs rnds' rem') of
           (Return res, Return res') \<Rightarrow> same_outcome res res'
         | (Continue rs rm, Continue rs' rm') \<Rightarrow>
             list_all2 same_round rs rs' \<and> mset rm' = mset rm \<and> distinct (map opt_id rm)
         | _ \<Rightarrow> False"
proof -
  have s: "set rem' = set rem" using p by (rule mset_eq_setD)
  have l': "2 < length rem'" using l mset_eq_length [OF p] by simp
  have l1: "1 < length rem" "1 < length rem'" using l l' by simp_all
  have ne: "rem \<noteq> []" using l by auto
  have n: "length rnds' = length rnds" using r by (simp add: list_all2_lengthD)
  have ids: "mset (map opt_id rem') = mset (map opt_id rem)" using p by (metis mset_map)
  let ?V = "\<lambda>opt. votesFor rem nbs (opt_id opt)"
  let ?m = "minVote rem nbs"
  let ?lo = "fold (\<lambda>current lowest. if opt_id current < opt_id lowest then current else lowest)
               (tl rem) (hd rem)"
  have E: "mset (filter (\<lambda>opt. ?V opt = ?m) rem') = mset (filter (\<lambda>opt. ?V opt = ?m) rem)"
    using p by (metis mset_filter)
  have K: "mset (filter (\<lambda>opt. ?V opt \<noteq> ?m) rem') = mset (filter (\<lambda>opt. ?V opt \<noteq> ?m) rem)"
    using p by (metis mset_filter)
  have dK: "distinct (map opt_id (filter (\<lambda>opt. ?V opt \<noteq> ?m) rem))"
    using d by (rule distinct_map_filter)
  have L: "mset (filter (\<lambda>opt. opt_id opt \<noteq> opt_id ?lo) rem') =
           mset (filter (\<lambda>opt. opt_id opt \<noteq> opt_id ?lo) rem)"
    using p by (metis mset_filter)
  have dL: "distinct (map opt_id (filter (\<lambda>opt. opt_id opt \<noteq> opt_id ?lo) rem))"
    using d by (rule distinct_map_filter)
  note f = find_majority_perm [OF p d, of nbs]
  note lo = lowest_perm [OF p d ne]
  show ?thesis
    unfolding round_p7_sem [OF l1(1)] round_p7_sem [OF l1(2)] votesFor_set [OF s]
      minVote_set [OF s] countVotes_set [OF s] calcPercentages_set [OF s] t f s lo
    using r n ids E K dK L dL l l' elim_fields_perm [OF E]
    by (auto simp: same_outcome_def same_round_def list_all2_appendI p split: option.splits)
qed

lemma round_p7_perm:
  assumes p: "mset rem' = mset rem" and d: "distinct (map opt_id rem)"
    and r: "list_all2 same_round rnds rnds'" and l: "1 < length rem"
    and t: "threshold = length nbs div 2 + 1"
  shows "case (round_p7 totalV threshold nbs rnds rem, round_p7 totalV threshold nbs rnds' rem') of
           (Return res, Return res') \<Rightarrow> same_outcome res res'
         | (Continue rs rm, Continue rs' rm') \<Rightarrow>
             list_all2 same_round rs rs' \<and> mset rm' = mset rm \<and> distinct (map opt_id rm)
         | _ \<Rightarrow> False"
proof (cases "length rem = 2")
  case True
  from round_p7_perm_two [OF p d r True, of totalV threshold nbs] show ?thesis
    by (auto split: pass.splits)
next
  case False
  with l have "2 < length rem" by simp
  from round_p7_perm_more [OF p d r this t] show ?thesis .
qed

lemma loop_p7_perm:
  assumes "mset rem' = mset rem" "distinct (map opt_id rem)" "list_all2 same_round rnds rnds'"
    and "threshold = length nbs div 2 + 1"
  shows "\<exists>res res'. calculateIRV_p7_loop totalV threshold nbs rnds rem = Inr res \<and>
           calculateIRV_p7_loop totalV threshold nbs rnds' rem' = Inr res' \<and>
           same_outcome res res'"
  using assms
proof (induction totalV threshold nbs rnds rem arbitrary: rnds' rem'
       rule: calculateIRV_p7_loop.induct)
  case (1 totalV threshold nbs rnds rem)
  note p = "1.prems"(1) and d = "1.prems"(2) and r = "1.prems"(3) and t = "1.prems"(4)
  show ?case
  proof (cases "1 < length rem")
    case False
    with p have "rem' = rem" by (rule short_perm_eq)
    with False r show ?thesis
      by (simp add: calculateIRV_p7_loop.simps [of _ _ _ _ rem] same_outcome_def)
  next
    case True
    then have l': "1 < length rem'" using mset_eq_length [OF p] by simp
    note step = round_p7_perm [OF p d r True t, of totalV]
    show ?thesis
    proof (cases "round_p7 totalV threshold nbs rnds rem")
      case (Return res)
      with step obtain res' where "round_p7 totalV threshold nbs rnds' rem' = Return res'"
        "same_outcome res res'"
        by (cases "round_p7 totalV threshold nbs rnds' rem'") auto
      with Return True l' show ?thesis
        by (simp add: calculateIRV_p7_loop.simps [of _ _ _ _ rem]
              calculateIRV_p7_loop.simps [of _ _ _ _ rem'])
    next
      case (Continue rs rm)
      with step obtain rs' rm' where
        i': "round_p7 totalV threshold nbs rnds' rem' = Continue rs' rm'"
        and q: "list_all2 same_round rs rs'" "mset rm' = mset rm" "distinct (map opt_id rm)"
        by (cases "round_p7 totalV threshold nbs rnds' rem'") auto
      from "1.IH" [OF True Continue q(2) q(3) q(1) t] Continue i' True l'
      show ?thesis
        by (simp add: calculateIRV_p7_loop.simps [of _ _ _ _ rem]
              calculateIRV_p7_loop.simps [of _ _ _ _ rem'])
    next
      case (Throw e)
      with step show ?thesis by simp
    qed
  qed
qed

section \<open>What \<^verbatim>\<open>part_007\<close> does in the rounds of C1 and C2\<close>

text \<open>
  A pass of \<^verbatim>\<open>part_007\<close> on two options with unequal counts: no majority winner is set,
  the option with the lower count is recorded as eliminated, the other one is returned as
  the winner, and the tally ends with this round.
\<close>

lemma p7_two_option_round:
  assumes d: "opt_id a \<noteq> opt_id b"
    and ca: "obj_get (countVotes [a, b] nbs) (opt_id a) = Some ca"
    and cb: "obj_get (countVotes [a, b] nbs) (opt_id b) = Some cb"
    and ne: "ca \<noteq> cb"
  shows "calculateIRV_p7_loop totalV threshold nbs rnds [a, b] =
         Inr \<lparr>rounds = rnds @
                [\<lparr>round_no = length rnds + 1, voteCounts = countVotes [a, b] nbs,
                  percentages = calcPercentages totalV (countVotes [a, b] nbs) [a, b],
                  eliminated = Some (if ca < cb then a else b), eliminatedMultiple = None,
                  remaining = [opt_id a, opt_id b],
                  majorityWinner = None, round_tie = False\<rparr>],
              winner = Some (if ca < cb then b else a), tie = False, tiedOptions = None,
              totalVotes = Some totalV, majorityThreshold = Some threshold, error = None\<rparr>"
proof -
  let ?rem = "[a, b]"
  have va: "votesFor ?rem nbs (opt_id a) = ca" using ca count_get_in [of a ?rem nbs] by simp
  have vb: "votesFor ?rem nbs (opt_id b) = cb" using cb count_get_in [of b ?rem nbs] by simp
  have m: "minVote ?rem nbs = min ca cb" by (simp add: minVote_def va vb)
  have j: "js_index (obj_values (countVotes ?rem nbs)) 0 \<noteq>
           js_index (obj_values (countVotes ?rem nbs)) 1"
    using d ne by (simp add: countVotes_pair obj_values_def js_index_def va vb)
  have l: "1 < length ?rem" by simp
  have "round_p7 totalV threshold nbs rnds ?rem =
        Return \<lparr>rounds = rnds @
                [\<lparr>round_no = length rnds + 1, voteCounts = countVotes [a, b] nbs,
                  percentages = calcPercentages totalV (countVotes [a, b] nbs) [a, b],
                  eliminated = Some (if ca < cb then a else b), eliminatedMultiple = None,
                  remaining = [opt_id a, opt_id b],
                  majorityWinner = None, round_tie = False\<rparr>],
              winner = Some (if ca < cb then b else a), tie = False, tiedOptions = None,
              totalVotes = Some totalV, majorityThreshold = Some threshold, error = None\<rparr>"
    unfolding round_p7_sem [OF l] using j d ne by (auto simp: m va vb min_def)
  then show ?thesis by (simp add: calculateIRV_p7_loop.simps [of _ _ _ _ "[a, b]"])
qed

text \<open>
  A pass of \<^verbatim>\<open>part_007\<close> on three or more options (unique ids) that all have the same
  count, below the threshold: exactly one option, the one with the lowest id, is recorded
  as eliminated and removed, and the loop continues.
\<close>

lemma p7_complete_tie_round:
  assumes l: "2 < length rem" and d: "distinct (map opt_id rem)"
    and c: "\<forall>opt \<in> set rem. obj_get (countVotes rem nbs) (opt_id opt) = Some c"
    and t: "c < threshold"
  shows "\<exists>lowest \<in> set rem.
           (\<forall>opt \<in> set rem. opt_id lowest \<le> opt_id opt) \<and>
           length (filter (\<lambda>opt. opt \<noteq> lowest) rem) = length rem - 1 \<and>
           round_p7 totalV threshold nbs rnds rem =
             Continue
               (rnds @
                 [\<lparr>round_no = length rnds + 1, voteCounts = countVotes rem nbs,
                   percentages = calcPercentages totalV (countVotes rem nbs) rem,
                   eliminated = Some lowest, eliminatedMultiple = None,
                   remaining = map opt_id rem,
                   majorityWinner = None, round_tie = False\<rparr>])
               (filter (\<lambda>opt. opt \<noteq> lowest) rem)"
proof -
  let ?lo = "fold (\<lambda>current lowest. if opt_id current < opt_id lowest then current else lowest)
               (tl rem) (hd rem)"
  from l have ne: "rem \<noteq> []" and l1: "1 < length rem" by auto
  have v: "\<forall>opt \<in> set rem. votesFor rem nbs (opt_id opt) = c"
    using c by (auto simp: count_get_in)
  from minVote_attained [OF ne, of nbs] v have m: "minVote rem nbs = c" by auto
  have nomaj: "find (\<lambda>opt. threshold \<le> votesFor rem nbs (opt_id opt)) rem = None"
    using v t by (auto simp: find_None_iff)
  have lo_in: "?lo \<in> set rem" using lowest_in_set [of "tl rem" "hd rem"] ne by simp
  have lo_le: "\<forall>opt \<in> set rem. opt_id ?lo \<le> opt_id opt"
    using lowest_le [of "hd rem" "tl rem"] ne by simp
  have fl: "filter (\<lambda>opt. opt_id opt \<noteq> opt_id ?lo) rem = filter (\<lambda>opt. opt \<noteq> ?lo) rem"
    using lo_in inj_ids [OF d] by (intro filter_cong) auto
  have dr: "distinct rem" using d by (simp add: distinct_map)
  have len: "length (filter (\<lambda>opt. opt \<noteq> ?lo) rem) = length rem - 1"
  proof -
    have g: "length (filter (\<lambda>opt. opt \<noteq> x) xs) = length xs - 1"
      if "distinct xs" "x \<in> set xs" for x :: PollOption and xs
    proof -
      from that show ?thesis
      proof (induction xs)
        case Nil
        then show ?case by simp
      next
        case (Cons y ys)
        show ?case
        proof (cases "y = x")
          case True
          with Cons.prems have "filter (\<lambda>opt. opt \<noteq> x) ys = ys"
            by (auto simp: filter_id_conv)
          with True show ?thesis by simp
        next
          case False
          with Cons have "length (filter (\<lambda>opt. opt \<noteq> x) ys) = length ys - 1"
            and "ys \<noteq> []" by auto
          with False show ?thesis by (cases ys) auto
        qed
      qed
    qed
    from g [OF dr lo_in] show ?thesis .
  qed
  have "round_p7 totalV threshold nbs rnds rem =
             Continue
               (rnds @
                 [\<lparr>round_no = length rnds + 1, voteCounts = countVotes rem nbs,
                   percentages = calcPercentages totalV (countVotes rem nbs) rem,
                   eliminated = Some ?lo, eliminatedMultiple = None,
                   remaining = map opt_id rem,
                   majorityWinner = None, round_tie = False\<rparr>])
               (filter (\<lambda>opt. opt \<noteq> ?lo) rem)"
    unfolding round_p7_sem [OF l1] nomaj m fl using l v by simp
  with lo_in lo_le len show ?thesis by blast
qed

section \<open>The order in which options are listed\<close>

lemma subseq_filter_of:
  "subseq rem options \<Longrightarrow> subseq (filter P rem) options"
  by (rule subseq_order.trans [OF subseq_filter_left])

lemma round_irv_order:
  assumes l: "1 < length rem" and s: "subseq rem options"
    and r: "list_all (round_in_order options) rnds"
  shows "case round_irv totalV threshold nbs rnds rem of
           Inl res \<Rightarrow> listed_in_order options res
         | Inr (rnds', rem') \<Rightarrow> subseq rem' options \<and> list_all (round_in_order options) rnds'"
  unfolding round_irv_sem [OF l]
  using r s subseq_map [OF s, of opt_id] subseq_filter_of [OF s]
  by (auto simp: listed_in_order_def round_in_order_def split: option.splits)

lemma round_p7_order:
  assumes l: "1 < length rem" and s: "subseq rem options"
    and r: "list_all (round_in_order options) rnds"
  shows "case round_p7 totalV threshold nbs rnds rem of
           Return res \<Rightarrow> listed_in_order options res
         | Continue rnds' rem' \<Rightarrow> subseq rem' options \<and> list_all (round_in_order options) rnds'
         | Throw e \<Rightarrow> True"
  unfolding round_p7_sem [OF l]
  using r s subseq_map [OF s, of opt_id] subseq_filter_of [OF s]
  by (auto simp: listed_in_order_def round_in_order_def split: option.splits)

lemma loop_irv_order:
  assumes "subseq rem options" "list_all (round_in_order options) rnds"
  shows "listed_in_order options (calculateIRV_loop totalV threshold nbs rnds rem)"
proof (rule loop_irv_rule [where I = "\<lambda>rnds rem. subseq rem options \<and>
          list_all (round_in_order options) rnds"])
  show "subseq rem options \<and> list_all (round_in_order options) rnds" using assms by simp
next
  fix rnds rem
  assume "subseq rem options \<and> list_all (round_in_order options) rnds"
  then show "listed_in_order options
       \<lparr>rounds = rnds, winner = js_index rem 0, tie = False, tiedOptions = None,
          totalVotes = Some totalV, majorityThreshold = Some threshold, error = None\<rparr>"
    by (simp add: listed_in_order_def)
next
  fix rnds rem res
  assume "1 < length rem" "subseq rem options \<and> list_all (round_in_order options) rnds"
    "round_irv totalV threshold nbs rnds rem = Inl res"
  then show "listed_in_order options res"
    using round_irv_order [of rem options rnds totalV threshold nbs] by simp
next
  fix rnds rem rnds' rem'
  assume "1 < length rem" "subseq rem options \<and> list_all (round_in_order options) rnds"
    "round_irv totalV threshold nbs rnds rem = Inr (rnds', rem')"
  then show "subseq rem' options \<and> list_all (round_in_order options) rnds'"
    using round_irv_order [of rem options rnds totalV threshold nbs] by simp
qed

lemma loop_p7_order:
  assumes "subseq rem options" "list_all (round_in_order options) rnds"
  shows "\<exists>res. calculateIRV_p7_loop totalV threshold nbs rnds rem = Inr res \<and>
           listed_in_order options res"
proof (rule loop_p7_rule [where I = "\<lambda>rnds rem. subseq rem options \<and>
          list_all (round_in_order options) rnds"])
  show "subseq rem options \<and> list_all (round_in_order options) rnds" using assms by simp
next
  fix rnds rem
  assume "subseq rem options \<and> list_all (round_in_order options) rnds"
  then show "listed_in_order options
       \<lparr>rounds = rnds, winner = js_index rem 0, tie = False, tiedOptions = None,
          totalVotes = Some totalV, majorityThreshold = Some threshold, error = None\<rparr>"
    by (simp add: listed_in_order_def)
next
  fix rnds rem res
  assume "1 < length rem" "subseq rem options \<and> list_all (round_in_order options) rnds"
    "round_p7 totalV threshold nbs rnds rem = Return res"
  then show "listed_in_order options res"
    using round_p7_order [of rem options rnds totalV threshold nbs] by simp
next
  fix rnds rem rnds' rem'
  assume "1 < length rem" "subseq rem options \<and> list_all (round_in_order options) rnds"
    "round_p7 totalV threshold nbs rnds rem = Continue rnds' rem'"
  then show "subseq rem' options \<and> list_all (round_in_order options) rnds'"
    using round_p7_order [of rem options rnds totalV threshold nbs] by simp
qed

lemma calculateIRV_order:
  "listed_in_order options (calculateIRV options ballots)"
  "\<exists>res. calculateIRV_p7 options ballots = Inr res \<and> listed_in_order options res"
proof -
  show "listed_in_order options (calculateIRV options ballots)"
  proof (cases "options = [] \<or> ballots = []")
    case True
    then show ?thesis by (auto simp: calculateIRV_def listed_in_order_def)
  next
    case False
    then show ?thesis by (simp add: calculateIRV_nonempty loop_irv_order)
  qed
  show "\<exists>res. calculateIRV_p7 options ballots = Inr res \<and> listed_in_order options res"
  proof (cases "options = [] \<or> ballots = []")
    case True
    then show ?thesis by (auto simp: calculateIRV_p7_def listed_in_order_def)
  next
    case False
    then show ?thesis by (simp add: calculateIRV_p7_nonempty loop_p7_order)
  qed
qed

text \<open>Two lists in the order of the same duplicate-free list, with the same elements, are equal.\<close>

lemma subseq_mset_eq:
  assumes "distinct zs" "subseq xs zs" "subseq ys zs" "mset xs = mset ys"
  shows "xs = ys"
  using assms
proof (induction zs arbitrary: xs ys)
  case Nil
  then show ?case by (auto dest: list_emb_Nil2)
next
  case (Cons z zs)
  have sx: "set xs = set ys" using Cons.prems(4) by (rule mset_eq_setD)
  show ?case
  proof (cases "z \<in> set xs")
    case False
    with sx have "z \<notin> set ys" by simp
    with False Cons.prems have "subseq xs zs" "subseq ys zs"
      by (auto simp: subseq_Cons2_iff elim: list_emb.cases)
    with Cons show ?thesis by simp
  next
    case True
    with sx have zy: "z \<in> set ys" by simp
    from Cons.prems(1) have nz: "z \<notin> set zs" by simp
    have hx: "\<exists>xs'. xs = z # xs' \<and> subseq xs' zs"
      using Cons.prems(2) True nz
      by (cases xs) (auto split: if_splits dest: list_emb_set)
    have hy: "\<exists>ys'. ys = z # ys' \<and> subseq ys' zs"
      using Cons.prems(3) zy nz
      by (cases ys) (auto split: if_splits dest: list_emb_set)
    from hx hy obtain xs' ys' where x: "xs = z # xs'" "subseq xs' zs"
      and y: "ys = z # ys'" "subseq ys' zs" by blast
    with Cons.prems(4) have "mset xs' = mset ys'" by simp
    with Cons.IH [of xs' ys'] Cons.prems(1) x y show ?thesis by simp
  qed
qed


section \<open>The count in the words of the specification\<close>

text \<open>
  For the ids as line 48 resolves them, on every input: the counts of a round sum to at
  most the number of ballots, with equality when every ballot has a ranking that resolves
  to a remaining id.
\<close>

lemma counts_at_most_ballots:
  "(\<forall>r \<in> set (rounds (calculateIRV options ballots)).
      fst ` set (voteCounts r) = set (remaining r) \<and>
      distinct (map fst (voteCounts r)) \<and>
      sum_list (obj_values (voteCounts r)) \<le> length ballots \<and>
      (sum_list (obj_values (voteCounts r)) = length ballots \<longleftrightarrow>
       (\<forall>b \<in> set ballots. \<exists>rk \<in> set (rankings b). \<exists>k \<in> set (remaining r).
          resolveOptionId rk = Some k))) \<and>
   (\<exists>res. calculateIRV_p7 options ballots = Inr res \<and>
      (\<forall>r \<in> set (rounds res).
         fst ` set (voteCounts r) = set (remaining r) \<and>
         distinct (map fst (voteCounts r)) \<and>
         sum_list (obj_values (voteCounts r)) \<le> length ballots \<and>
         (sum_list (obj_values (voteCounts r)) = length ballots \<longleftrightarrow>
          (\<forall>b \<in> set ballots. \<exists>rk \<in> set (rankings b). \<exists>k \<in> set (remaining r).
             resolveOptionId rk = Some k))))"
proof (cases "options = [] \<or> ballots = []")
  case True
  then show ?thesis by (auto simp: calculateIRV_def calculateIRV_p7_def)
next
  case False
  let ?nbs = "map normalizeBallot ballots"
  let ?t = "length ballots div 2 + 1"
  have p: "\<forall>r \<in> set (rounds (calculateIRV_loop (length ballots) ?t ?nbs [] options)).
             \<exists>rem'. played_on ?t ?nbs rem' r"
    by (rule loop_irv_played) simp
  have q: "\<exists>res. calculateIRV_p7_loop (length ballots) ?t ?nbs [] options = Inr res \<and>
           totalVotes res = Some (length ballots) \<and> majorityThreshold res = Some ?t \<and>
           (\<forall>r \<in> set (rounds res). \<exists>rem'. played_on ?t ?nbs rem' r)"
    by (rule loop_p7_played) simp
  from q obtain res where res: "calculateIRV_p7 options ballots = Inr res"
    and pr: "\<forall>r \<in> set (rounds res). \<exists>rem'. played_on ?t ?nbs rem' r"
    using False by (auto simp: calculateIRV_p7_nonempty)
  from p have pi: "\<forall>r \<in> set (rounds (calculateIRV options ballots)).
             \<exists>rem'. played_on ?t ?nbs rem' r"
    using False by (simp add: calculateIRV_nonempty)
  show ?thesis
  proof (intro conjI ballI exI [of _ res])
    show "calculateIRV_p7 options ballots = Inr res" by (rule res)
  qed (use pi pr played_sum in blast)+
qed

lemma resolve_truthy:
  assumes "pollOptionId r \<noteq> Some 0"
    and "case pollOption r of None \<Rightarrow> True | Some p \<Rightarrow> opt_id p \<noteq> 0"
  shows "resolveOptionId r = spec_optionId r"
  using assms by (auto simp: resolveOptionId_def spec_optionId_def split: option.splits)

lemma firstChoice_spec:
  assumes "\<forall>r \<in> set rs. resolveOptionId r = spec_optionId r"
  shows "firstChoice rem (map (\<lambda>r. \<lparr>n_pollOptionId = resolveOptionId r, n_rank = rank r\<rparr>) rs) =
         (case find (\<lambda>r. case spec_optionId r of None \<Rightarrow> False
                          | Some k \<Rightarrow> k \<in> set (map opt_id rem)) rs of
            None \<Rightarrow> None
          | Some r \<Rightarrow> spec_optionId r)"
  using assms by (induction rs) (auto simp: list_ex_iff split: option.splits)

lemma credited_firstChoice:
  assumes "list_all (\<lambda>r. pollOptionId r \<noteq> Some 0 \<and>
                          (case pollOption r of None \<Rightarrow> True | Some p \<Rightarrow> opt_id p \<noteq> 0))
             (rankings b)"
  shows "firstChoice rem (nb_rankings (normalizeBallot b)) = spec_credited (map opt_id rem) b"
proof -
  from assms have "\<forall>r \<in> set (sort_key rank (rankings b)). resolveOptionId r = spec_optionId r"
    by (auto simp: list_all_iff intro: resolve_truthy)
  then show ?thesis
    unfolding normalizeBallot_def spec_credited_def by (simp add: firstChoice_spec)
qed

lemma spec_credited_iff:
  "spec_credited ids b \<noteq> None \<longleftrightarrow>
   (\<exists>rk \<in> set (rankings b). \<exists>k \<in> set ids. spec_optionId rk = Some k)"
proof -
  let ?P = "\<lambda>r. case spec_optionId r of None \<Rightarrow> False | Some k \<Rightarrow> k \<in> set ids"
  let ?xs = "sort_key rank (rankings b)"
  have "spec_credited ids b \<noteq> None \<longleftrightarrow> find ?P ?xs \<noteq> None"
  proof (cases "find ?P ?xs")
    case None
    then show ?thesis by (simp add: spec_credited_def)
  next
    case (Some r)
    then have "?P r" by (rule find_Some_in [THEN conjunct2])
    with Some show ?thesis by (auto simp: spec_credited_def split: option.splits)
  qed
  also have "\<dots> \<longleftrightarrow> (\<exists>rk \<in> set ?xs. ?P rk)"
    by (auto simp: find_None_iff)
  also have "\<dots> \<longleftrightarrow> (\<exists>rk \<in> set (rankings b). \<exists>k \<in> set ids. spec_optionId rk = Some k)"
    by (auto split: option.splits)
  finally show ?thesis .
qed

lemma sorted_keys_eq:
  assumes "sorted_wrt (<) (map fst kvs)"
  shows "map fst kvs = sorted_list_of_set (fst ` set kvs)"
proof -
  from assms have "sorted (map fst kvs)" "distinct (map fst kvs)"
    by (simp_all add: strict_sorted_iff)
  then have "sorted_list_of_set (set (map fst kvs)) = map fst kvs"
    by (rule sorted_list_of_set.idem_if_sorted_distinct)
  then show ?thesis by simp
qed

lemma played_counted:
  assumes p: "played_on threshold (map normalizeBallot ballots) rem r"
    and t: "ids_truthy ballots"
  shows "counted_as_spec ballots r"
proof -
  let ?nbs = "map normalizeBallot ballots"
  from p have vc: "voteCounts r = countVotes rem ?nbs" and rm: "remaining r = map opt_id rem"
    by (simp_all add: played_on_def)
  have f: "firstChoice rem (nb_rankings (normalizeBallot b)) = spec_credited (remaining r) b"
    if "b \<in> set ballots" for b
    unfolding rm using t that by (intro credited_firstChoice) (simp add: ids_truthy_def list_all_iff)
  have k: "map fst (voteCounts r) = sorted_list_of_set (set (remaining r))"
    unfolding vc rm using sorted_keys_eq [OF countVotes_sorted, of rem ?nbs]
    by (simp add: countVotes_keys)
  have c: "obj_get (voteCounts r) k = Some (spec_count (remaining r) ballots k)"
    if "k \<in> set (remaining r)" for k
  proof -
    have "filter (\<lambda>b. firstChoice rem (nb_rankings (normalizeBallot b)) = Some k) ballots =
          filter (\<lambda>b. spec_credited (remaining r) b = Some k) ballots"
      by (rule filter_cong) (simp_all add: f)
    then have "length (filter (\<lambda>b. firstChoice rem (nb_rankings b) = Some k) ?nbs) =
          spec_count (remaining r) ballots k"
      by (simp add: spec_count_def filter_map o_def)
    with that show ?thesis unfolding vc countVotes_get rm by simp
  qed
  have s: "sum_list (obj_values (voteCounts r)) =
           length (filter (\<lambda>b. spec_credited (remaining r) b \<noteq> None) ballots)"
  proof -
    have "filter (\<lambda>b. firstChoice rem (nb_rankings (normalizeBallot b)) \<noteq> None) ballots =
          filter (\<lambda>b. spec_credited (remaining r) b \<noteq> None) ballots"
      by (rule filter_cong) (simp_all add: f)
    then show ?thesis unfolding vc countVotes_sum by (simp add: filter_map o_def)
  qed
  from k c s show ?thesis by (simp add: counted_as_spec_def list_all_iff)
qed

lemma counted_total:
  assumes "counted_as_spec ballots r"
  shows "sum_list (obj_values (voteCounts r)) \<le> length ballots"
    and "sum_list (obj_values (voteCounts r)) = length ballots \<longleftrightarrow>
         (\<forall>b \<in> set ballots. \<exists>rk \<in> set (rankings b). \<exists>k \<in> set (remaining r).
            spec_optionId rk = Some k)"
proof -
  from assms have s: "sum_list (obj_values (voteCounts r)) =
           length (filter (\<lambda>b. spec_credited (remaining r) b \<noteq> None) ballots)"
    by (simp add: counted_as_spec_def)
  show "sum_list (obj_values (voteCounts r)) \<le> length ballots" unfolding s by simp
  show "sum_list (obj_values (voteCounts r)) = length ballots \<longleftrightarrow>
         (\<forall>b \<in> set ballots. \<exists>rk \<in> set (rankings b). \<exists>k \<in> set (remaining r).
            spec_optionId rk = Some k)"
    unfolding s length_filter_eq_iff spec_credited_iff ..
qed

lemma counts_as_spec:
  assumes t: "ids_truthy ballots"
  shows "list_all (counted_as_spec ballots) (rounds (calculateIRV options ballots))"
    and "\<exists>res. calculateIRV_p7 options ballots = Inr res \<and>
           list_all (counted_as_spec ballots) (rounds res)"
proof -
  let ?nbs = "map normalizeBallot ballots"
  let ?t = "length ballots div 2 + 1"
  have p: "\<forall>r \<in> set (rounds (calculateIRV_loop (length ballots) ?t ?nbs [] options)).
             \<exists>rem'. played_on ?t ?nbs rem' r"
    by (rule loop_irv_played) simp
  have q: "\<exists>res. calculateIRV_p7_loop (length ballots) ?t ?nbs [] options = Inr res \<and>
           totalVotes res = Some (length ballots) \<and> majorityThreshold res = Some ?t \<and>
           (\<forall>r \<in> set (rounds res). \<exists>rem'. played_on ?t ?nbs rem' r)"
    by (rule loop_p7_played) simp
  show "list_all (counted_as_spec ballots) (rounds (calculateIRV options ballots))"
  proof (cases "options = [] \<or> ballots = []")
    case True
    then show ?thesis by (auto simp: calculateIRV_def)
  next
    case False
    with p have "\<forall>r \<in> set (rounds (calculateIRV options ballots)).
                   \<exists>rem'. played_on ?t ?nbs rem' r"
      by (simp add: calculateIRV_nonempty)
    with played_counted [OF _ t] show ?thesis unfolding list_all_iff by blast
  qed
  show "\<exists>res. calculateIRV_p7 options ballots = Inr res \<and>
           list_all (counted_as_spec ballots) (rounds res)"
  proof (cases "options = [] \<or> ballots = []")
    case True
    then show ?thesis by (auto simp: calculateIRV_p7_def)
  next
    case False
    with q obtain res where "calculateIRV_p7 options ballots = Inr res"
      and "\<forall>r \<in> set (rounds res). \<exists>rem'. played_on ?t ?nbs rem' r"
      by (auto simp: calculateIRV_p7_nonempty)
    with played_counted [OF _ t] show ?thesis unfolding list_all_iff by blast
  qed
qed

lemma counts_as_spec_example:
  "ids_truthy ballots_last_place \<and>
   map voteCounts (rounds (calculateIRV [O1, O2, O3] ballots_last_place)) =
     [[(1, 2), (2, 1), (3, 1)]] \<and>
   map (spec_count [1, 2, 3] ballots_last_place) [1, 2, 3] = [2, 1, 1]"
  by code_simp

section \<open>The claims\<close>

text \<open>
  C1 on \<^verbatim>\<open>src/backend/utils/irv.js\<close>, at the input of the test ``two options with clear
  winner'' (counts 2 and 1, threshold 2): the majority test runs although two options
  remain, so the round records \<^verbatim>\<open>majorityWinner\<close> 1 and no eliminated option, where the
  test expects \<^verbatim>\<open>rounds[0].eliminated.id\<close> to be 2. \<^verbatim>\<open>part_007\<close> does what C1 says, on
  every such round: lemma \<open>p7_two_option_round\<close>.
\<close>

theorem irv_two_option_round:
  "calculateIRV [O1, O2] ballots_clear_winner =
     \<lparr>rounds =
        [\<lparr>round_no = 1, voteCounts = [(1, 2), (2, 1)],
          percentages = [(1, Percent 2 3), (2, Percent 1 3)],
          eliminated = None, eliminatedMultiple = None, remaining = [1, 2],
          majorityWinner = Some 1, round_tie = False\<rparr>],
      winner = Some O1, tie = False, tiedOptions = None, totalVotes = Some 3,
      majorityThreshold = Some 2, error = None\<rparr>"
  by code_simp

text \<open>
  C2 on \<^verbatim>\<open>src/backend/utils/irv.js\<close>, at the input of the test ``handles three-round
  elimination'' (four options with one vote each, threshold 3): the round is recorded as a
  tie and the tally stops with no winner, where the test expects a winner. \<^verbatim>\<open>part_007\<close>
  does what C2 says, on every such round: lemma \<open>p7_complete_tie_round\<close>.
\<close>

theorem irv_complete_tie_round:
  "calculateIRV [O1, O2, O3, O4] ballots_four_way =
     \<lparr>rounds =
        [\<lparr>round_no = 1, voteCounts = [(1, 1), (2, 1), (3, 1), (4, 1)],
          percentages = [(1, Percent 1 4), (2, Percent 1 4), (3, Percent 1 4), (4, Percent 1 4)],
          eliminated = None, eliminatedMultiple = None, remaining = [1, 2, 3, 4],
          majorityWinner = None, round_tie = True\<rparr>],
      winner = None, tie = True, tiedOptions = Some [O1, O2, O3, O4], totalVotes = Some 4,
      majorityThreshold = Some 3, error = None\<rparr>"
  by code_simp




text \<open>
  C4 on both versions, at the options 0 and 1 and one ballot whose only ranking names
  option 0 by the nested reference. The ballot ranks an option that is remaining (in the
  words of the claim it credits option 0, whose count is 1, and the counts sum to
  \<^verbatim>\<open>totalVotes\<close>, which is 1); but \<^verbatim>\<open>r.pollOption?.id || r.pollOptionId\<close> (line 48) takes
  the nested id 0 for absent, so the ballot credits nothing: both counts are 0, their sum
  is 0, and the round is declared a tie. On ballots that name no option by the id 0, every
  round counts as C4 says, option by option: lemmas \<open>counts_as_spec\<close> and
  \<open>counted_total\<close>.
\<close>

theorem nested_zero_uncounted:
  "map spec_optionId (rankings ballot_zero_only) = [Some 0] \<and>
   spec_credited [0, 1] ballot_zero_only = Some 0 \<and>
   spec_count [0, 1] [ballot_zero_only] 0 = 1 \<and>
   map remaining (rounds (calculateIRV [O0, O1] [ballot_zero_only])) = [[0, 1]] \<and>
   map voteCounts (rounds (calculateIRV [O0, O1] [ballot_zero_only])) = [[(0, 0), (1, 0)]] \<and>
   totalVotes (calculateIRV [O0, O1] [ballot_zero_only]) = Some 1 \<and>
   tie (calculateIRV [O0, O1] [ballot_zero_only]) \<and>
   map_sum id (map remaining \<circ> rounds) (calculateIRV_p7 [O0, O1] [ballot_zero_only]) =
     Inr [[0, 1]] \<and>
   map_sum id (map voteCounts \<circ> rounds) (calculateIRV_p7 [O0, O1] [ballot_zero_only]) =
     Inr [[(0, 0), (1, 0)]] \<and>
   map_sum id totalVotes (calculateIRV_p7 [O0, O1] [ballot_zero_only]) = Inr (Some 1) \<and>
   map_sum id tie (calculateIRV_p7 [O0, O1] [ballot_zero_only]) = Inr True"
  by code_simp



text \<open>
  C6. Neither version ever returns the error ``All options eliminated - no winner'': a
  pass that eliminates is one where some count differs from the minimum, and an option
  with such a count is not among those removed. \<^verbatim>\<open>part_007\<close> returns (it does not throw).
\<close>

theorem never_all_eliminated:
  "error (calculateIRV options ballots) \<noteq> Some ''All options eliminated - no winner'' \<and>
   (\<exists>res. calculateIRV_p7 options ballots = Inr res \<and>
      error res \<noteq> Some ''All options eliminated - no winner'')"
proof (cases "options = [] \<or> ballots = []")
  case True
  then show ?thesis by (auto simp: calculateIRV_def calculateIRV_p7_def)
next
  case False
  let ?nbs = "map normalizeBallot ballots"
  let ?t = "length ballots div 2 + 1"
  have "error (calculateIRV_loop (length ballots) ?t ?nbs [] options) = None"
    by (rule loop_irv_rule [where I = "\<lambda>rnds rem. True"]) (simp_all add: round_irv_no_error)
  moreover have "\<exists>res. calculateIRV_p7_loop (length ballots) ?t ?nbs [] options = Inr res \<and>
      error res = None"
    by (rule loop_p7_rule [where I = "\<lambda>rnds rem. True"]) (simp_all add: round_p7_no_error)
  ultimately show ?thesis using False
    by (auto simp: calculateIRV_nonempty calculateIRV_p7_nonempty)
qed

theorem never_all_eliminated_witness:
  "error (calculateIRV [O1, O2, O3] ballots_last_place) \<noteq>
     Some ''All options eliminated - no winner'' \<and>
   rounds (calculateIRV [O1, O2, O3] ballots_last_place) \<noteq> []"
proof -
  have "rounds (calculateIRV [O1, O2, O3] ballots_last_place) \<noteq> []" by code_simp
  with never_all_eliminated [of "[O1, O2, O3]" ballots_last_place] show ?thesis by blast
qed

text \<open>
  C7. For non-empty options and ballots, the returned \<^verbatim>\<open>totalVotes\<close> is the number of
  ballots and the returned \<^verbatim>\<open>majorityThreshold\<close> is \<open>floor(totalVotes / 2) + 1\<close>; the loop
  takes both as fixed parameters, and every round that records a majority winner compared
  that option's count with this same threshold. Both versions; \<^verbatim>\<open>part_007\<close> returns (it
  does not throw).
\<close>

theorem totals_fixed:
  assumes "options \<noteq> []" "ballots \<noteq> []"
  shows "totalVotes (calculateIRV options ballots) = Some (length ballots) \<and>
         majorityThreshold (calculateIRV options ballots) = Some (length ballots div 2 + 1) \<and>
         (\<forall>r \<in> set (rounds (calculateIRV options ballots)). \<forall>k.
            majorityWinner r = Some k \<longrightarrow>
            count_ge (voteCounts r) k (length ballots div 2 + 1)) \<and>
         (\<exists>res. calculateIRV_p7 options ballots = Inr res \<and>
            totalVotes res = Some (length ballots) \<and>
            majorityThreshold res = Some (length ballots div 2 + 1) \<and>
            (\<forall>r \<in> set (rounds res). \<forall>k.
               majorityWinner r = Some k \<longrightarrow>
               count_ge (voteCounts r) k (length ballots div 2 + 1)))"
proof -
  let ?nbs = "map normalizeBallot ballots"
  let ?t = "length ballots div 2 + 1"
  let ?rem = "map (\<lambda>opt. \<lparr>opt_id = opt_id opt, opt_text = opt_text opt\<rparr>) options"
  have a: "calculateIRV options ballots = calculateIRV_loop (length ballots) ?t ?nbs [] ?rem"
    using assms by (simp add: calculateIRV_def Let_def)
  have b: "calculateIRV_p7 options ballots = calculateIRV_p7_loop (length ballots) ?t ?nbs [] ?rem"
    using assms by (simp add: calculateIRV_p7_def Let_def)
  have p: "\<forall>r \<in> set (rounds (calculateIRV_loop (length ballots) ?t ?nbs [] ?rem)).
             \<exists>rem'. played_on ?t ?nbs rem' r"
    by (rule loop_irv_played) simp
  have q: "\<exists>res. calculateIRV_p7_loop (length ballots) ?t ?nbs [] ?rem = Inr res \<and>
           totalVotes res = Some (length ballots) \<and> majorityThreshold res = Some ?t \<and>
           (\<forall>r \<in> set (rounds res). \<exists>rem'. played_on ?t ?nbs rem' r)"
    by (rule loop_p7_played) simp
  from p have p': "\<forall>r \<in> set (rounds (calculateIRV options ballots)). \<forall>k.
            majorityWinner r = Some k \<longrightarrow> count_ge (voteCounts r) k ?t"
    unfolding a by (blast dest: played_majority)
  from q have q': "\<exists>res. calculateIRV_p7 options ballots = Inr res \<and>
            totalVotes res = Some (length ballots) \<and> majorityThreshold res = Some ?t \<and>
            (\<forall>r \<in> set (rounds res). \<forall>k.
               majorityWinner r = Some k \<longrightarrow> count_ge (voteCounts r) k ?t)"
    unfolding b by (blast dest: played_majority)
  from loop_irv_totals [of "length ballots" ?t ?nbs "[]" ?rem] p' q' show ?thesis
    unfolding a by simp
qed

theorem totals_fixed_witness:
  "[O1, O2, O3] \<noteq> [] \<and> ballots_majority \<noteq> [] \<and>
   totalVotes (calculateIRV [O1, O2, O3] ballots_majority) = Some 5 \<and>
   majorityThreshold (calculateIRV [O1, O2, O3] ballots_majority) = Some 3"
  using totals_fixed [of "[O1, O2, O3]" ballots_majority]
  by (simp add: ballots_majority_def)

text \<open>
  C8, as amended. Reordering the ballots changes nothing: for the same options list and
  ballots lists that are permutations of each other the two results are equal. Reordering
  the options (with unique ids) too gives two results that agree on everything but the
  order in which \<^verbatim>\<open>remaining\<close>, \<^verbatim>\<open>eliminatedMultiple\<close> and \<^verbatim>\<open>tiedOptions\<close> list their
  options: these hold the same elements in both results, and each result lists them in the
  order of the options list it was given (with unique ids that fixes the lists: lemma
  \<open>subseq_mset_eq\<close>). Both versions.
\<close>

theorem reordering:
  assumes "mset ballots' = mset ballots"
  shows "calculateIRV options ballots' = calculateIRV options ballots \<and>
         calculateIRV_p7 options ballots' = calculateIRV_p7 options ballots \<and>
         listed_in_order options (calculateIRV options ballots) \<and>
         (mset options' = mset options \<longrightarrow> distinct (map opt_id options) \<longrightarrow>
            same_outcome (calculateIRV options ballots) (calculateIRV options' ballots') \<and>
            listed_in_order options' (calculateIRV options' ballots') \<and>
            (\<exists>res res'. calculateIRV_p7 options ballots = Inr res \<and>
               calculateIRV_p7 options' ballots' = Inr res' \<and> same_outcome res res' \<and>
               listed_in_order options res \<and> listed_in_order options' res'))"
proof (intro conjI impI)
  show "calculateIRV options ballots' = calculateIRV options ballots"
    using assms by (rule calculateIRV_ballots_mset)
  show "calculateIRV_p7 options ballots' = calculateIRV_p7 options ballots"
    using assms by (rule calculateIRV_ballots_mset)
  show "listed_in_order options (calculateIRV options ballots)"
    by (rule calculateIRV_order)
next
  assume p: "mset options' = mset options" and d: "distinct (map opt_id options)"
  let ?nbs = "map normalizeBallot ballots"
  let ?t = "length ballots div 2 + 1"
  have b: "calculateIRV options' ballots' = calculateIRV options' ballots"
    "calculateIRV_p7 options' ballots' = calculateIRV_p7 options' ballots"
    using assms by (rule calculateIRV_ballots_mset)+
  have e: "(options' = []) = (options = [])" using p by (metis mset_zero_iff)
  have t: "?t = length ?nbs div 2 + 1" by simp
  show "same_outcome (calculateIRV options ballots) (calculateIRV options' ballots')"
  proof (cases "options = [] \<or> ballots = []")
    case True
    with e show ?thesis unfolding b by (auto simp: calculateIRV_def same_outcome_def)
  next
    case False
    with e loop_irv_perm [OF p d _ t, of "[]" "[]" "length ballots"] show ?thesis
      unfolding b by (simp add: calculateIRV_nonempty)
  qed
  show "listed_in_order options' (calculateIRV options' ballots')"
    by (rule calculateIRV_order)
  have s: "\<exists>res res'. calculateIRV_p7 options ballots = Inr res \<and>
               calculateIRV_p7 options' ballots' = Inr res' \<and> same_outcome res res'"
  proof (cases "options = [] \<or> ballots = []")
    case True
    with e show ?thesis unfolding b by (auto simp: calculateIRV_p7_def same_outcome_def)
  next
    case False
    with e loop_p7_perm [OF p d _ t, of "[]" "[]" "length ballots"] show ?thesis
      unfolding b by (simp add: calculateIRV_p7_nonempty)
  qed
  from s calculateIRV_order(2) [of options ballots] calculateIRV_order(2) [of options' ballots']
  show "\<exists>res res'. calculateIRV_p7 options ballots = Inr res \<and>
               calculateIRV_p7 options' ballots' = Inr res' \<and> same_outcome res res' \<and>
               listed_in_order options res \<and> listed_in_order options' res'"
    by auto
qed

theorem reordering_witness:
  "mset (rev ballots_clear_winner) = mset ballots_clear_winner \<and>
   mset [O2, O1] = mset [O1, O2] \<and> distinct (map opt_id [O1, O2]) \<and>
   calculateIRV [O1, O2] (rev ballots_clear_winner) = calculateIRV [O1, O2] ballots_clear_winner \<and>
   winner (calculateIRV [O2, O1] (rev ballots_clear_winner)) =
     winner (calculateIRV [O1, O2] ballots_clear_winner) \<and>
   listed_in_order [O1, O2] (calculateIRV [O1, O2] ballots_clear_winner) \<and>
   listed_in_order [O2, O1] (calculateIRV [O2, O1] (rev ballots_clear_winner))"
proof -
  have a: "mset (rev ballots_clear_winner) = mset ballots_clear_winner" by simp
  have b: "mset [O2, O1] = mset [O1, O2]" by (simp add: add.commute)
  have d: "distinct (map opt_id [O1, O2])" by (simp add: O1_def O2_def)
  from reordering [OF a, of "[O1, O2]" "[O2, O1]"] a b d show ?thesis
    by (simp add: same_outcome_def)
qed

text \<open>
  C8, as stated, fails when the options are reordered: \<^verbatim>\<open>remaining\<close> lists the ids in the
  order of the options list, in both versions.
\<close>

theorem reordering_options_shows:
  "mset [O2, O1] = mset [O1, O2] \<and>
   calculateIRV [O2, O1] ballots_clear_winner \<noteq> calculateIRV [O1, O2] ballots_clear_winner \<and>
   map remaining (rounds (calculateIRV [O1, O2] ballots_clear_winner)) = [[1, 2]] \<and>
   map remaining (rounds (calculateIRV [O2, O1] ballots_clear_winner)) = [[2, 1]] \<and>
   map_sum id (map remaining \<circ> rounds) (calculateIRV_p7 [O1, O2] ballots_clear_winner) =
     Inr [[1, 2]] \<and>
   map_sum id (map remaining \<circ> rounds) (calculateIRV_p7 [O2, O1] ballots_clear_winner) =
     Inr [[2, 1]]"
proof -
  have "mset [O2, O1] = mset [O1, O2]" by (simp add: add.commute)
  moreover have a: "map remaining (rounds (calculateIRV [O1, O2] ballots_clear_winner)) = [[1, 2]]"
    by code_simp
  moreover have b: "map remaining (rounds (calculateIRV [O2, O1] ballots_clear_winner)) = [[2, 1]]"
    by code_simp
  moreover from a b have
    "calculateIRV [O2, O1] ballots_clear_winner \<noteq> calculateIRV [O1, O2] ballots_clear_winner"
    by auto
  moreover have "map_sum id (map remaining \<circ> rounds)
      (calculateIRV_p7 [O1, O2] ballots_clear_winner) = Inr [[1, 2]]"
    by code_simp
  moreover have "map_sum id (map remaining \<circ> rounds)
      (calculateIRV_p7 [O2, O1] ballots_clear_winner) = Inr [[2, 1]]"
    by code_simp
  ultimately show ?thesis by blast
qed

text \<open>
  C9 on both versions, at the options 0 and 1 and one ballot that ranks option 0 first and
  option 1 second: \<^verbatim>\<open>r.pollOption?.id || r.pollOptionId\<close> (line 48) takes a nested id 0 for
  absent, where the bare id 0 is resolved (the count tests the id with \<^verbatim>\<open>===\<close>). So the
  nested form of the first choice is skipped and the ballot counts for its second choice:
  the bare form elects option 0, the nested form elects option 1. On ballots that name no
  option by the id 0 the two forms give the same result: lemma \<open>ranking_forms_agree\<close>.
\<close>

theorem ranking_form_zero_id:
  "list_all2 same_ballot [ballot_zero_direct] [ballot_zero_nested] \<and>
   winner (calculateIRV [O0, O1] [ballot_zero_direct]) = Some O0 \<and>
   winner (calculateIRV [O0, O1] [ballot_zero_nested]) = Some O1 \<and>
   map_sum id winner (calculateIRV_p7 [O0, O1] [ballot_zero_direct]) = Inr (Some O0) \<and>
   map_sum id winner (calculateIRV_p7 [O0, O1] [ballot_zero_nested]) = Inr (Some O1)"
  by code_simp

text \<open>
  C10. In every recorded round at most one remaining id has a count that reaches
  \<open>floor(n / 2) + 1\<close>, \<open>n\<close> the number of ballots (two such counts would sum to more than
  \<open>n\<close>); and on options with distinct ids, the first-match scan for a majority winner
  finds the same option in whatever order the options are scanned.
\<close>

theorem majority_winner_unique:
  "(\<forall>r \<in> set (rounds (calculateIRV options ballots)).
      \<forall>i \<in> set (remaining r). \<forall>j \<in> set (remaining r).
        count_ge (voteCounts r) i (length ballots div 2 + 1) \<longrightarrow>
        count_ge (voteCounts r) j (length ballots div 2 + 1) \<longrightarrow> i = j) \<and>
   (\<exists>res. calculateIRV_p7 options ballots = Inr res \<and>
      (\<forall>r \<in> set (rounds res).
         \<forall>i \<in> set (remaining r). \<forall>j \<in> set (remaining r).
           count_ge (voteCounts r) i (length ballots div 2 + 1) \<longrightarrow>
           count_ge (voteCounts r) j (length ballots div 2 + 1) \<longrightarrow> i = j)) \<and>
   (distinct (map opt_id rem) \<longrightarrow> mset rem' = mset rem \<longrightarrow>
      find (\<lambda>opt. count_ge (countVotes rem (map normalizeBallot ballots)) (opt_id opt)
                    (length ballots div 2 + 1)) rem' =
      find (\<lambda>opt. count_ge (countVotes rem (map normalizeBallot ballots)) (opt_id opt)
                    (length ballots div 2 + 1)) rem)"
proof (intro conjI)
  show "\<forall>r \<in> set (rounds (calculateIRV options ballots)).
      \<forall>i \<in> set (remaining r). \<forall>j \<in> set (remaining r).
        count_ge (voteCounts r) i (length ballots div 2 + 1) \<longrightarrow>
        count_ge (voteCounts r) j (length ballots div 2 + 1) \<longrightarrow> i = j"
  proof
    fix r
    assume "r \<in> set (rounds (calculateIRV options ballots))"
    with rounds_played_irv [of options ballots]
    have "\<exists>rem. played_on (length ballots div 2 + 1) (map normalizeBallot ballots) rem r" ..
    then show "\<forall>i \<in> set (remaining r). \<forall>j \<in> set (remaining r).
        count_ge (voteCounts r) i (length ballots div 2 + 1) \<longrightarrow>
        count_ge (voteCounts r) j (length ballots div 2 + 1) \<longrightarrow> i = j"
      by (rule played_majority_unique')
  qed
next
  from rounds_played_p7 [of options ballots] obtain res where
    res: "calculateIRV_p7 options ballots = Inr res"
    and pl: "\<forall>r \<in> set (rounds res).
        \<exists>rem. played_on (length ballots div 2 + 1) (map normalizeBallot ballots) rem r"
    by blast
  have "\<forall>r \<in> set (rounds res).
         \<forall>i \<in> set (remaining r). \<forall>j \<in> set (remaining r).
           count_ge (voteCounts r) i (length ballots div 2 + 1) \<longrightarrow>
           count_ge (voteCounts r) j (length ballots div 2 + 1) \<longrightarrow> i = j"
  proof
    fix r
    assume "r \<in> set (rounds res)"
    with pl have "\<exists>rem. played_on (length ballots div 2 + 1) (map normalizeBallot ballots) rem r" ..
    then show "\<forall>i \<in> set (remaining r). \<forall>j \<in> set (remaining r).
        count_ge (voteCounts r) i (length ballots div 2 + 1) \<longrightarrow>
        count_ge (voteCounts r) j (length ballots div 2 + 1) \<longrightarrow> i = j"
      by (rule played_majority_unique')
  qed
  with res show "\<exists>res. calculateIRV_p7 options ballots = Inr res \<and>
      (\<forall>r \<in> set (rounds res).
         \<forall>i \<in> set (remaining r). \<forall>j \<in> set (remaining r).
           count_ge (voteCounts r) i (length ballots div 2 + 1) \<longrightarrow>
           count_ge (voteCounts r) j (length ballots div 2 + 1) \<longrightarrow> i = j)"
    by blast
next
  show "distinct (map opt_id rem) \<longrightarrow> mset rem' = mset rem \<longrightarrow>
      find (\<lambda>opt. count_ge (countVotes rem (map normalizeBallot ballots)) (opt_id opt)
                    (length ballots div 2 + 1)) rem' =
      find (\<lambda>opt. count_ge (countVotes rem (map normalizeBallot ballots)) (opt_id opt)
                    (length ballots div 2 + 1)) rem"
    using majority_scan [of rem rem' "map normalizeBallot ballots"] by simp
qed

theorem majority_winner_unique_witness:
  "distinct (map opt_id [O1, O2, O3]) \<and> mset [O3, O1, O2] = mset [O1, O2, O3] \<and>
   find (\<lambda>opt. count_ge (countVotes [O1, O2, O3] (map normalizeBallot ballots_majority))
                 (opt_id opt) (length ballots_majority div 2 + 1)) [O3, O1, O2] =
   find (\<lambda>opt. count_ge (countVotes [O1, O2, O3] (map normalizeBallot ballots_majority))
                 (opt_id opt) (length ballots_majority div 2 + 1)) [O1, O2, O3]"
proof -
  have d: "distinct (map opt_id [O1, O2, O3])" by (simp add: O1_def O2_def O3_def)
  have m: "mset [O3, O1, O2] = mset [O1, O2, O3]" by (simp add: add.commute)
  from majority_winner_unique [of "[O1, O2, O3]" ballots_majority "[O1, O2, O3]" "[O3, O1, O2]"] d m
  show ?thesis by blast
qed

end
